theory Spec2Isabelle
  imports Main "HOL-Library.Finite_Map"
begin

section \<open>The node type of \<^verbatim>\<open>bintree::TNode\<close> over an explicit object store\<close>

text \<open>
  \<^verbatim>\<open>src/tree.h\<close> declares one class template, \<^verbatim>\<open>TNode<T>\<close>, whose objects are
  only ever created by \<^verbatim>\<open>std::make_shared\<close> and are linked to one another by
  \<^verbatim>\<open>std::shared_ptr\<close> (the two child slots) and \<^verbatim>\<open>std::weak_ptr\<close> (the parent
  back-reference). Several handles may name the same object and the operations mutate the
  objects in place, so the model keeps an explicit store: every object has an identity (a
  natural number that is never reused), the store maps the identities of the objects that
  are currently alive to their fields, and a smart pointer is the identity it names, or
  \<open>None\<close> when it is empty.
\<close>

type_synonym addr = nat

text \<open>
  The data members of \<^verbatim>\<open>TNode\<close> (lines 113--123). The member \<^verbatim>\<open>value\<close> is called
  \<open>val\<close> here. \<open>left\<close> and \<open>right\<close> are owning pointers, \<open>parent\<close> is the weak
  pointer: it records the identity it was last assigned and does not own it.
\<close>

record 'a TNode =
  val :: 'a
  left :: "addr option"
  right :: "addr option"
  parent :: "addr option"

text \<open>
  The store: \<open>heap\<close> holds the objects that are alive, \<open>nxt\<close> is the identity the next
  allocation will use, and \<open>held s a\<close> counts the owning pointers to \<open>a\<close> that the
  calling program holds in its own variables and temporaries (the owning pointers that sit
  in child slots are in the heap itself).
\<close>

record 'a store =
  heap :: "(addr, 'a TNode) fmap"
  nxt :: addr
  held :: "addr \<Rightarrow> nat"

definition empty_store :: "'a store" where
  "empty_store = \<lparr>heap = fmempty, nxt = 0, held = (\<lambda>_. 0)\<rparr>"

definition node_at :: "'a store \<Rightarrow> addr \<Rightarrow> 'a TNode option" where
  "node_at s a = fmlookup (heap s) a"

definition live :: "'a store \<Rightarrow> addr \<Rightarrow> bool" where
  "live s a = (node_at s a \<noteq> None)"

text \<open>
  Assignment to a member through a pointer, \<^verbatim>\<open>a->field = ...\<close>. A pointer that the
  program holds always names an object that is alive; for an identity that is not alive
  the model leaves the store as it is.
\<close>

definition modify :: "addr \<Rightarrow> ('a TNode \<Rightarrow> 'a TNode) \<Rightarrow> 'a store \<Rightarrow> 'a store" where
  "modify a f s =
     (case node_at s a of
        None \<Rightarrow> s
      | Some x \<Rightarrow> s\<lparr>heap := fmupd a (f x) (heap s)\<rparr>)"

text \<open>An owning pointer is handed to the caller: one more pointer in the caller's hands.\<close>

definition acquire :: "addr option \<Rightarrow> 'a store \<Rightarrow> 'a store" where
  "acquire h s =
     (case h of
        None \<Rightarrow> s
      | Some a \<Rightarrow> s\<lparr>held := (held s)(a := Suc (held s a))\<rparr>)"

subsection \<open>Accessors (lines 14--60)\<close>

text \<open>
  \<^verbatim>\<open>weak_ptr::lock\<close>: the pointer resolves to the object it names while that object is
  alive, and to the empty pointer otherwise.
\<close>

definition lock :: "'a store \<Rightarrow> addr option \<Rightarrow> addr option" where
  "lock s w =
     (case w of
        None \<Rightarrow> None
      | Some p \<Rightarrow> if live s p then Some p else None)"

definition getValue :: "'a store \<Rightarrow> addr \<Rightarrow> 'a option" where
  "getValue s n = map_option val (node_at s n)"

definition getLeft :: "'a store \<Rightarrow> addr \<Rightarrow> addr option" where
  "getLeft s n = (case node_at s n of None \<Rightarrow> None | Some x \<Rightarrow> left x)"

definition getRight :: "'a store \<Rightarrow> addr \<Rightarrow> addr option" where
  "getRight s n = (case node_at s n of None \<Rightarrow> None | Some x \<Rightarrow> right x)"

definition getParent :: "'a store \<Rightarrow> addr \<Rightarrow> addr option" where
  "getParent s n = (case node_at s n of None \<Rightarrow> None | Some x \<Rightarrow> lock s (parent x))"

definition hasLeft :: "'a store \<Rightarrow> addr \<Rightarrow> bool" where
  "hasLeft s n = (getLeft s n \<noteq> None)"

definition hasRight :: "'a store \<Rightarrow> addr \<Rightarrow> bool" where
  "hasRight s n = (getRight s n \<noteq> None)"

text \<open>
  \<^verbatim>\<open>hasParent\<close> (lines 22--24) is written \<^verbatim>\<open>bool(parent)\<close>, as \<^verbatim>\<open>hasLeft\<close> and
  \<^verbatim>\<open>hasRight\<close> are on the owning pointers, but \<^verbatim>\<open>parent\<close> is the weak pointer and
  \<^verbatim>\<open>std::weak_ptr\<close> has no conversion to \<^verbatim>\<open>bool\<close>: the member cannot be
  instantiated, no program can call it, and it computes nothing that could be embedded.
  It has no definition here. Whether a node has a parent is observed with
  \<^verbatim>\<open>getParent\<close>, the one member that reads the back-reference.
\<close>

subsection \<open>Construction (lines 62--75, 125--151)\<close>

text \<open>
  \<^verbatim>\<open>std::make_shared<TSuccessorNode>(...)\<close>: a new object with the given fields at a
  fresh identity, and the one owning pointer to it in the caller's hands.
  \<^verbatim>\<open>TSuccessorNode\<close> adds no member to \<^verbatim>\<open>TNode\<close> and its constructors only forward,
  so the object is a \<open>TNode\<close> record.
\<close>

definition alloc :: "'a TNode \<Rightarrow> 'a store \<Rightarrow> addr \<times> 'a store" where
  "alloc x s =
     (nxt s, s\<lparr>heap := fmupd (nxt s) x (heap s), nxt := Suc (nxt s), held := (held s)(nxt s := 1)\<rparr>)"

definition setParent :: "addr option \<Rightarrow> addr option \<Rightarrow> 'a store \<Rightarrow> 'a store" where
  "setParent node p s =
     (case node of
        None \<Rightarrow> s
      | Some c \<Rightarrow> modify c (\<lambda>x. x\<lparr>parent := p\<rparr>) s)"

definition createLeaf :: "'a \<Rightarrow> 'a store \<Rightarrow> addr \<times> 'a store" where
  "createLeaf v s = alloc \<lparr>val = v, left = None, right = None, parent = None\<rparr> s"

definition fork :: "'a \<Rightarrow> addr option \<Rightarrow> addr option \<Rightarrow> 'a store \<Rightarrow> addr \<times> 'a store" where
  "fork v l r s =
     (let (ptr, s1) = alloc \<lparr>val = v, left = l, right = r, parent = None\<rparr> s;
          s2 = setParent (getLeft s1 ptr) (Some ptr) s1;
          s3 = setParent (getRight s2 ptr) (Some ptr) s2
      in (ptr, s3))"

subsection \<open>Mutation (lines 77--110)\<close>

text \<open>
  \<^verbatim>\<open>replaceLeft\<close>: the two \<^verbatim>\<open>setParent\<close> calls in the order of the source, then the
  swap of the argument with the slot; the old content of the slot is returned to the
  caller as an owning pointer.
\<close>

definition replaceLeft :: "addr \<Rightarrow> addr option \<Rightarrow> 'a store \<Rightarrow> addr option \<times> 'a store" where
  "replaceLeft this l s =
     (let s1 = setParent l (Some this) s;
          s2 = setParent (getLeft s1 this) None s1;
          old = getLeft s2 this;
          s3 = modify this (\<lambda>x. x\<lparr>left := l\<rparr>) s2
      in (old, acquire old s3))"

definition replaceRight :: "addr \<Rightarrow> addr option \<Rightarrow> 'a store \<Rightarrow> addr option \<times> 'a store" where
  "replaceRight this r s =
     (let s1 = setParent r (Some this) s;
          s2 = setParent (getRight s1 this) None s1;
          old = getRight s2 this;
          s3 = modify this (\<lambda>x. x\<lparr>right := r\<rparr>) s2
      in (old, acquire old s3))"

definition removeLeft :: "addr \<Rightarrow> 'a store \<Rightarrow> addr option \<times> 'a store" where
  "removeLeft this s = replaceLeft this None s"

definition removeRight :: "addr \<Rightarrow> 'a store \<Rightarrow> addr option \<times> 'a store" where
  "removeRight this s = replaceRight this None s"

subsection \<open>Giving up an owning pointer\<close>

text \<open>
  The number of owning pointers to \<open>a\<close>: those the caller holds and those in the child
  slots of the objects allocated so far that are alive. The weak pointer \<open>parent\<close> is
  not an owning pointer and is not counted.
\<close>

definition slot_refs :: "'a store \<Rightarrow> addr \<Rightarrow> addr \<Rightarrow> nat" where
  "slot_refs s a p =
     (case node_at s p of
        None \<Rightarrow> 0
      | Some x \<Rightarrow> (if left x = Some a then 1 else 0) + (if right x = Some a then 1 else 0))"

definition incoming :: "'a store \<Rightarrow> addr \<Rightarrow> nat" where
  "incoming s a = sum_list (map (slot_refs s a) [0..<nxt s])"

definition use_count :: "'a store \<Rightarrow> addr \<Rightarrow> nat" where
  "use_count s a = held s a + incoming s a"

fun slot_list :: "addr option \<Rightarrow> addr list" where
  "slot_list None = []"
| "slot_list (Some a) = [a]"

text \<open>
  The destructor that the compiler generates for \<^verbatim>\<open>TNode\<close>, run by the
  \<^verbatim>\<open>shared_ptr\<close> that gives up the last owning pointer to an object: the object stops
  being alive and its members are destroyed in the reverse order of their declaration,
  \<^verbatim>\<open>right\<close> before \<^verbatim>\<open>left\<close>, each giving up its owning pointer in turn. \<open>sweep\<close> takes
  the objects that have just lost an owning pointer as a stack.
\<close>

definition dealloc :: "addr \<Rightarrow> 'a store \<Rightarrow> 'a store" where
  "dealloc a s = s\<lparr>heap := fmdrop a (heap s)\<rparr>"

function sweep :: "addr list \<Rightarrow> 'a store \<Rightarrow> 'a store" where
  "sweep [] s = s"
| "sweep (a # as) s =
     (case node_at s a of
        None \<Rightarrow> sweep as s
      | Some x \<Rightarrow>
          if use_count s a = 0
          then sweep (slot_list (right x) @ slot_list (left x) @ as) (dealloc a s)
          else sweep as s)"
  by pat_completeness auto

termination sweep
proof (relation "inv_image (less_than <*lex*> less_than)
                   (\<lambda>(as, s). (fcard (fmdom (heap s)), length as))")
  show "wf (inv_image (less_than <*lex*> less_than)
              (\<lambda>(as, s :: 'a store). (fcard (fmdom (heap s)), length as)))"
    by (intro wf_inv_image wf_lex_prod wf_less_than)
next
  fix a :: addr and as :: "addr list" and s :: "'a store" and x :: "'a TNode"
  assume "node_at s a = Some x"
  then have "a |\<in>| fmdom (heap s)"
    by (simp add: node_at_def fmdomI)
  then have "fcard (fmdom (heap s) |-| {|a|}) < fcard (fmdom (heap s))"
    by (metis fcard_fminus1_less)
  then show "((slot_list (right x) @ slot_list (left x) @ as, dealloc a s), a # as, s)
      \<in> inv_image (less_than <*lex*> less_than) (\<lambda>(as, s). (fcard (fmdom (heap s)), length as))"
    by (simp add: dealloc_def)
qed simp_all

text \<open>The caller destroys or reassigns one of its owning pointers to \<open>a\<close>.\<close>

definition release :: "addr \<Rightarrow> 'a store \<Rightarrow> 'a store" where
  "release a s = sweep [a] (s\<lparr>held := (held s)(a := held s a - 1)\<rparr>)"

text \<open>
  \<^verbatim>\<open>replaceLeftWithLeaf(v)\<close> is \<^verbatim>\<open>replaceLeft(createLeaf(v))\<close>: the pointer that
  \<^verbatim>\<open>createLeaf\<close> returns is a temporary, gone when the call returns.
\<close>

definition replaceLeftWithLeaf :: "addr \<Rightarrow> 'a \<Rightarrow> 'a store \<Rightarrow> addr option \<times> 'a store" where
  "replaceLeftWithLeaf this v s =
     (let (l, s1) = createLeaf v s;
          (old, s2) = replaceLeft this (Some l) s1
      in (old, release l s2))"

definition replaceRightWithLeaf :: "addr \<Rightarrow> 'a \<Rightarrow> 'a store \<Rightarrow> addr option \<times> 'a store" where
  "replaceRightWithLeaf this v s =
     (let (r, s1) = createLeaf v s;
          (old, s2) = replaceRight this (Some r) s1
      in (old, release r s2))"

subsection \<open>Programs over the public interface\<close>

text \<open>
  A caller is a sequence of calls of the public members, each made through owning pointers
  that the caller holds at that moment. The accessors that return an owning pointer
  (\<^verbatim>\<open>getLeft\<close>, \<^verbatim>\<open>getRight\<close>, \<^verbatim>\<open>getParent\<close>) put one more pointer in the
  caller's hands; \<open>Release\<close> is the caller destroying one of its pointers (a variable
  going out of scope, a temporary at the end of its expression, a discarded result).
\<close>

datatype 'a call =
    CreateLeaf 'a
  | Fork 'a "addr option" "addr option"
  | ReplaceLeft addr "addr option"
  | ReplaceRight addr "addr option"
  | RemoveLeft addr
  | RemoveRight addr
  | ReplaceLeftWithLeaf addr 'a
  | ReplaceRightWithLeaf addr 'a
  | GetLeft addr
  | GetRight addr
  | GetParent addr
  | Release addr

fun exec :: "'a call \<Rightarrow> 'a store \<Rightarrow> 'a store" where
  "exec (CreateLeaf v) s = snd (createLeaf v s)"
| "exec (Fork v l r) s = snd (fork v l r s)"
| "exec (ReplaceLeft n x) s = snd (replaceLeft n x s)"
| "exec (ReplaceRight n x) s = snd (replaceRight n x s)"
| "exec (RemoveLeft n) s = snd (removeLeft n s)"
| "exec (RemoveRight n) s = snd (removeRight n s)"
| "exec (ReplaceLeftWithLeaf n v) s = snd (replaceLeftWithLeaf n v s)"
| "exec (ReplaceRightWithLeaf n v) s = snd (replaceRightWithLeaf n v s)"
| "exec (GetLeft n) s = acquire (getLeft s n) s"
| "exec (GetRight n) s = acquire (getRight s n) s"
| "exec (GetParent n) s = acquire (getParent s n) s"
| "exec (Release a) s = release a s"

definition holds :: "'a store \<Rightarrow> addr \<Rightarrow> bool" where
  "holds s a = (0 < held s a)"

fun holds_opt :: "'a store \<Rightarrow> addr option \<Rightarrow> bool" where
  "holds_opt s None = True"
| "holds_opt s (Some a) = holds s a"

text \<open>A call is possible when the caller holds a pointer to every object it names.\<close>

fun valid :: "'a store \<Rightarrow> 'a call \<Rightarrow> bool" where
  "valid s (CreateLeaf v) = True"
| "valid s (Fork v l r) = (holds_opt s l \<and> holds_opt s r)"
| "valid s (ReplaceLeft n x) = (holds s n \<and> holds_opt s x)"
| "valid s (ReplaceRight n x) = (holds s n \<and> holds_opt s x)"
| "valid s (RemoveLeft n) = holds s n"
| "valid s (RemoveRight n) = holds s n"
| "valid s (ReplaceLeftWithLeaf n v) = holds s n"
| "valid s (ReplaceRightWithLeaf n v) = holds s n"
| "valid s (GetLeft n) = holds s n"
| "valid s (GetRight n) = holds s n"
| "valid s (GetParent n) = holds s n"
| "valid s (Release a) = holds s a"

fun run :: "'a call list \<Rightarrow> 'a store \<Rightarrow> 'a store option" where
  "run [] s = Some s"
| "run (c # cs) s = (if valid s c then run cs (exec c s) else None)"

inductive reachable :: "'a store \<Rightarrow> bool" where
  init: "reachable empty_store"
| step: "reachable s \<Longrightarrow> valid s c \<Longrightarrow> reachable (exec c s)"

section \<open>Properties of a store\<close>

text \<open>
  Identities are handed out in increasing order: every object that is alive, every pointer
  stored in an object and every pointer in the caller's hands is below \<open>nxt\<close>.
\<close>

definition well_formed :: "'a store \<Rightarrow> bool" where
  "well_formed s \<longleftrightarrow>
     (\<forall>a. live s a \<longrightarrow> a < nxt s) \<and>
     (\<forall>a x c. node_at s a = Some x \<longrightarrow>
        left x = Some c \<or> right x = Some c \<or> parent x = Some c \<longrightarrow> c < nxt s) \<and>
     (\<forall>a. holds s a \<longrightarrow> a < nxt s)"

text \<open>\<open>has_child s p c\<close>: \<open>p\<close> is alive and one of its two slots holds \<open>c\<close>.\<close>

definition has_child :: "'a store \<Rightarrow> addr \<Rightarrow> addr \<Rightarrow> bool" where
  "has_child s p c \<longleftrightarrow> getLeft s p = Some c \<or> getRight s p = Some c"

text \<open>A back-reference that resolves names a node that holds the referring node in a slot.\<close>

definition parent_is_owner :: "'a store \<Rightarrow> bool" where
  "parent_is_owner s \<longleftrightarrow>
     (\<forall>c p. getParent s c = Some p \<longrightarrow> getLeft s p = Some c \<or> getRight s p = Some c)"

text \<open>
  Link consistency as the specification words it: between two live nodes, the strong link
  and the back-reference imply each other.
\<close>

definition links_consistent :: "'a store \<Rightarrow> bool" where
  "links_consistent s \<longleftrightarrow>
     (\<forall>p c. live s p \<and> live s c \<longrightarrow>
        (getLeft s p = Some c \<or> getRight s p = Some c) = (getParent s c = Some p))"

text \<open>No sharing of subtrees: at most one child slot holds any given node.\<close>

definition single_owner :: "'a store \<Rightarrow> bool" where
  "single_owner s \<longleftrightarrow> (\<forall>c. incoming s c \<le> 1)"

text \<open>
  The precondition that the specification puts on the caller (sections 4.2 and 7): a node
  that is handed to \<^verbatim>\<open>fork\<close> or \<^verbatim>\<open>replace*\<close> as a new child is not held in any child
  slot at the time of the call, and \<^verbatim>\<open>fork\<close> is not given the same node twice. The
  source does not check it.
\<close>

definition unattached :: "'a store \<Rightarrow> addr option \<Rightarrow> bool" where
  "unattached s h = (case h of None \<Rightarrow> True | Some a \<Rightarrow> incoming s a = 0)"

fun attach_ok :: "'a store \<Rightarrow> 'a call \<Rightarrow> bool" where
  "attach_ok s (Fork v l r) = (unattached s l \<and> unattached s r \<and> (l = None \<or> l \<noteq> r))"
| "attach_ok s (ReplaceLeft n x) = unattached s x"
| "attach_ok s (ReplaceRight n x) = unattached s x"
| "attach_ok s c = True"

text \<open>The stores that a caller who keeps to this precondition can reach.\<close>

inductive reachable_tidy :: "'a store \<Rightarrow> bool" where
  tidy_init: "reachable_tidy empty_store"
| tidy_step: "reachable_tidy s \<Longrightarrow> valid s c \<Longrightarrow> attach_ok s c \<Longrightarrow> reachable_tidy (exec c s)"

text \<open>What such a caller maintains, slot by slot.\<close>

definition tidy_inv :: "'a store \<Rightarrow> bool" where
  "tidy_inv s \<longleftrightarrow>
     (\<forall>p c. \<not> (getLeft s p = Some c \<and> getRight s p = Some c)) \<and>
     (\<forall>c p q. has_child s p c \<and> has_child s q c \<longrightarrow> p = q) \<and>
     (\<forall>p c y. has_child s p c \<and> node_at s c = Some y \<longrightarrow> parent y = Some p)"

text \<open>
  Owning pointers never dangle: what the caller holds is alive, and what a slot of a live
  node holds is alive.
\<close>

definition owners_alive :: "'a store \<Rightarrow> bool" where
  "owners_alive s \<longleftrightarrow> (\<forall>a. holds s a \<longrightarrow> live s a) \<and> (\<forall>p c. has_child s p c \<longrightarrow> live s c)"


text \<open>The same without counting: a live object is in the caller's hands or in a slot.\<close>

definition referenced :: "'a store \<Rightarrow> bool" where
  "referenced s \<longleftrightarrow> (\<forall>a. live s a \<longrightarrow> holds s a \<or> (\<exists>p. has_child s p a))"

text \<open>
  Two stores look the same to a caller when they agree on everything except back-references
  that do not resolve: an empty back-reference and one that names a deallocated object
  count as the same.
\<close>

definition same_node :: "'a store \<Rightarrow> 'a TNode \<Rightarrow> 'a TNode \<Rightarrow> bool" where
  "same_node s x y \<longleftrightarrow>
     val x = val y \<and> left x = left y \<and> right x = right y
     \<and> lock s (parent x) = lock s (parent y)"

definition same_view :: "'a store \<Rightarrow> 'a store \<Rightarrow> bool" where
  "same_view s t \<longleftrightarrow>
     nxt s = nxt t \<and> held s = held t
     \<and> (\<forall>a. rel_option (same_node s) (node_at s a) (node_at t a))"

text \<open>
  The strong links of a store as a relation between parent and child, and the second
  precondition of section 7 of the specification: no node is attached below itself, that
  is, a new child of \<open>n\<close> is not \<open>n\<close> or one of its ancestors. The source does not
  check it either.
\<close>

definition edges :: "'a store \<Rightarrow> (addr \<times> addr) set" where
  "edges s = {(p, c). has_child s p c}"



section \<open>The replace operation as the specification describes it\<close>

text \<open>
  The three steps of section 4.3 in the order given there: (1) if the new child is
  present, set its back-reference to this node; (2) clear the back-reference of the current
  left child, if any; (3) put the new child in the left slot. The result is the child
  that the slot held before the call.
\<close>

definition replaceLeft_steps :: "addr \<Rightarrow> addr option \<Rightarrow> 'a store \<Rightarrow> addr option \<times> 'a store" where
  "replaceLeft_steps n x s =
     (let s1 = (case x of None \<Rightarrow> s | Some c \<Rightarrow> modify c (\<lambda>y. y\<lparr>parent := Some n\<rparr>) s);
          s2 = (case getLeft s1 n of None \<Rightarrow> s1 | Some c \<Rightarrow> modify c (\<lambda>y. y\<lparr>parent := None\<rparr>) s1);
          s3 = modify n (\<lambda>y. y\<lparr>left := x\<rparr>) s2
      in (getLeft s n, acquire (getLeft s n) s3))"

text \<open>The mirror image of a store: every node with its two slots exchanged.\<close>

definition mirror_node :: "'a TNode \<Rightarrow> 'a TNode" where
  "mirror_node y = y\<lparr>left := right y, right := left y\<rparr>"

definition mirror :: "'a store \<Rightarrow> 'a store" where
  "mirror s = s\<lparr>heap := fmmap mirror_node (heap s)\<rparr>"

section \<open>Example stores\<close>

text \<open>A leaf holding 1 (object 0) under a root holding 0 (object 1), both still in the caller's hands.\<close>

definition two_nodes :: "nat store" where
  "two_nodes = exec (Fork 0 (Some 0) None) (exec (CreateLeaf 1) empty_store)"

text \<open>The same with a second leaf holding 2 (object 2), attached nowhere.\<close>

definition three_nodes :: "nat store" where
  "three_nodes = exec (CreateLeaf 2) two_nodes"

text \<open>
  The leaf of \<open>three_nodes\<close> (object 0, the left child of object 1) is made the left
  child of object 2 as well.
\<close>

definition stolen_leaf :: "nat store" where
  "stolen_leaf = exec (ReplaceLeft 2 (Some 0)) three_nodes"

text \<open>The leaf of \<open>two_nodes\<close> is attached to a second root (object 2) as well.\<close>

definition shared_leaf :: "nat store" where
  "shared_leaf = exec (Fork 5 (Some 0) None) two_nodes"

text \<open>
  The caller of \<open>two_nodes\<close> gives up the root: the root is deallocated, the leaf stays
  with a back-reference that names the deallocated root.
\<close>

definition orphaned :: "nat store" where
  "orphaned = exec (Release 1) two_nodes"

text \<open>
  The same leaf, detached with \<^verbatim>\<open>removeLeft\<close> before the root is given up: its
  back-reference is empty.
\<close>

definition detached :: "nat store" where
  "detached = exec (Release 0) (exec (Release 1) (exec (RemoveLeft 1) two_nodes))"

section \<open>Basic facts about the operations\<close>

lemmas op_defs = createLeaf_def fork_def alloc_def setParent_def modify_def node_at_def
  getLeft_def getRight_def getParent_def hasLeft_def hasRight_def getValue_def
  lock_def live_def acquire_def replaceLeft_def replaceRight_def removeLeft_def removeRight_def
  empty_store_def holds_def

lemma node_at_modify:
  "node_at (modify a f s) b = (if a = b then map_option f (node_at s b) else node_at s b)"
  by (simp add: modify_def node_at_def split: option.splits)

lemma nxt_modify: "nxt (modify a f s) = nxt s"
  by (simp add: modify_def split: option.splits)

lemma held_modify: "held (modify a f s) = held s"
  by (simp add: modify_def split: option.splits)

lemma node_at_setParent:
  "node_at (setParent c p s) b =
     (if c = Some b then map_option (\<lambda>x. x\<lparr>parent := p\<rparr>) (node_at s b) else node_at s b)"
  by (cases c) (auto simp: setParent_def node_at_modify)

lemma nxt_setParent: "nxt (setParent c p s) = nxt s"
  by (simp add: setParent_def nxt_modify split: option.splits)

lemma held_setParent: "held (setParent c p s) = held s"
  by (simp add: setParent_def held_modify split: option.splits)

lemma node_at_acquire: "node_at (acquire h s) b = node_at s b"
  by (simp add: acquire_def node_at_def split: option.splits)

lemma nxt_acquire: "nxt (acquire h s) = nxt s"
  by (simp add: acquire_def split: option.splits)

lemma held_acquire:
  "held (acquire h s) a = (if h = Some a then Suc (held s a) else held s a)"
  by (simp add: acquire_def split: option.splits)

lemma getLeft_setParent: "getLeft (setParent c p s) n = getLeft s n"
  by (simp add: getLeft_def node_at_setParent split: option.splits)

lemma getRight_setParent: "getRight (setParent c p s) n = getRight s n"
  by (simp add: getRight_def node_at_setParent split: option.splits)

text \<open>
  The effect of \<open>replaceLeft\<close> on each object, in closed form. The evicted child loses
  its back-reference even when it is also the new child, because the source clears after
  it sets.
\<close>

lemma fst_replaceLeft: "fst (replaceLeft n x s) = getLeft s n"
  by (simp add: replaceLeft_def Let_def getLeft_setParent)

lemma node_at_replaceLeft:
  "node_at (snd (replaceLeft n x s)) b =
     map_option (\<lambda>y. y\<lparr>left := (if b = n then x else left y),
                       parent := (if getLeft s n = Some b then None
                                  else if x = Some b then Some n else parent y)\<rparr>)
       (node_at s b)"
  by (cases "node_at s b")
     (auto simp: replaceLeft_def Let_def getLeft_setParent node_at_acquire node_at_modify
        node_at_setParent)

lemma nxt_replaceLeft: "nxt (snd (replaceLeft n x s)) = nxt s"
  by (simp add: replaceLeft_def Let_def nxt_acquire nxt_modify nxt_setParent)

lemma held_replaceLeft:
  "held (snd (replaceLeft n x s)) a = (if getLeft s n = Some a then Suc (held s a) else held s a)"
  by (simp add: replaceLeft_def Let_def held_acquire held_modify held_setParent getLeft_setParent)

lemma live_replaceLeft: "live (snd (replaceLeft n x s)) b = live s b"
  by (simp add: live_def node_at_replaceLeft)

lemma fst_replaceRight: "fst (replaceRight n x s) = getRight s n"
  by (simp add: replaceRight_def Let_def getRight_setParent)

lemma node_at_replaceRight:
  "node_at (snd (replaceRight n x s)) b =
     map_option (\<lambda>y. y\<lparr>right := (if b = n then x else right y),
                       parent := (if getRight s n = Some b then None
                                  else if x = Some b then Some n else parent y)\<rparr>)
       (node_at s b)"
  by (cases "node_at s b")
     (auto simp: replaceRight_def Let_def getRight_setParent node_at_acquire node_at_modify
        node_at_setParent)

lemma nxt_replaceRight: "nxt (snd (replaceRight n x s)) = nxt s"
  by (simp add: replaceRight_def Let_def nxt_acquire nxt_modify nxt_setParent)

lemma held_replaceRight:
  "held (snd (replaceRight n x s)) a = (if getRight s n = Some a then Suc (held s a) else held s a)"
  by (simp add: replaceRight_def Let_def held_acquire held_modify held_setParent getRight_setParent)

lemma live_replaceRight: "live (snd (replaceRight n x s)) b = live s b"
  by (simp add: live_def node_at_replaceRight)

lemma two_nodes_eq:
  "two_nodes = \<lparr>heap = fmupd 0 \<lparr>val = 1, left = None, right = None, parent = Some 1\<rparr>
                        (fmupd 1 \<lparr>val = 0, left = Some 0, right = None, parent = None\<rparr>
                        (fmupd 0 \<lparr>val = 1, left = None, right = None, parent = None\<rparr> fmempty)),
                 nxt = 2, held = (\<lambda>_. 0)(0 := 1, 1 := 1)\<rparr>"
  by (simp add: two_nodes_def op_defs Let_def)

lemma three_nodes_eq:
  "three_nodes = \<lparr>heap = fmupd 2 \<lparr>val = 2, left = None, right = None, parent = None\<rparr>
                        (fmupd 0 \<lparr>val = 1, left = None, right = None, parent = Some 1\<rparr>
                        (fmupd 1 \<lparr>val = 0, left = Some 0, right = None, parent = None\<rparr>
                        (fmupd 0 \<lparr>val = 1, left = None, right = None, parent = None\<rparr> fmempty))),
                 nxt = 3, held = (\<lambda>_. 0)(0 := 1, 1 := 1, 2 := 1)\<rparr>"
  by (simp add: three_nodes_def two_nodes_eq createLeaf_def alloc_def)

section \<open>Invariants of the reachable stores\<close>

lemma fst_createLeaf: "fst (createLeaf v s) = nxt s"
  by (simp add: createLeaf_def alloc_def)

lemma node_at_createLeaf:
  "node_at (snd (createLeaf v s)) b =
     (if b = nxt s then Some \<lparr>val = v, left = None, right = None, parent = None\<rparr>
      else node_at s b)"
  by (simp add: createLeaf_def alloc_def node_at_def)

lemma nxt_createLeaf: "nxt (snd (createLeaf v s)) = Suc (nxt s)"
  by (simp add: createLeaf_def alloc_def)

lemma held_createLeaf:
  "held (snd (createLeaf v s)) b = (if b = nxt s then 1 else held s b)"
  by (simp add: createLeaf_def alloc_def)

lemma fst_alloc: "fst (alloc x s) = nxt s"
  by (simp add: alloc_def)

lemma node_at_alloc:
  "node_at (snd (alloc x s)) b = (if b = nxt s then Some x else node_at s b)"
  by (simp add: alloc_def node_at_def)

lemma nxt_alloc: "nxt (snd (alloc x s)) = Suc (nxt s)"
  by (simp add: alloc_def)

lemma held_alloc: "held (snd (alloc x s)) b = (if b = nxt s then 1 else held s b)"
  by (simp add: alloc_def)

lemma fst_fork: "fst (fork v l r s) = nxt s"
  by (simp add: fork_def split_beta Let_def fst_alloc)

lemma node_at_fork:
  "node_at (snd (fork v l r s)) b =
     (if b = nxt s
      then Some \<lparr>val = v, left = l, right = r,
                 parent = (if l = Some b \<or> r = Some b then Some b else None)\<rparr>
      else map_option (\<lambda>y. y\<lparr>parent := (if l = Some b \<or> r = Some b then Some (nxt s)
                                           else parent y)\<rparr>) (node_at s b))"
  by (cases "node_at s b")
     (auto simp: fork_def split_beta Let_def node_at_setParent getLeft_def getRight_def
        node_at_alloc fst_alloc)

lemma nxt_fork: "nxt (snd (fork v l r s)) = Suc (nxt s)"
  by (simp add: fork_def split_beta Let_def nxt_setParent nxt_alloc)

lemma held_fork: "held (snd (fork v l r s)) b = (if b = nxt s then 1 else held s b)"
  by (simp add: fork_def split_beta Let_def held_setParent held_alloc)

lemma nxt_sweep: "nxt (sweep as s) = nxt s"
  by (induction as s rule: sweep.induct) (simp_all add: dealloc_def split: option.splits)

lemma held_sweep: "held (sweep as s) = held s"
  by (induction as s rule: sweep.induct) (simp_all add: dealloc_def split: option.splits)

lemma node_at_dealloc: "node_at (dealloc a s) b = (if b = a then None else node_at s b)"
  by (simp add: dealloc_def node_at_def)

lemma nxt_dealloc: "nxt (dealloc a s) = nxt s"
  by (simp add: dealloc_def)

lemma held_dealloc: "held (dealloc a s) = held s"
  by (simp add: dealloc_def)

lemma node_at_sweep:
  "node_at (sweep as s) b = None \<or> node_at (sweep as s) b = node_at s b"
proof (induction as s rule: sweep.induct)
  case (1 s)
  show ?case by simp
next
  case (2 a as s)
  show ?case
  proof (cases "node_at s a")
    case None
    with 2 show ?thesis by simp
  next
    case (Some x)
    show ?thesis
    proof (cases "use_count s a = 0")
      case True
      from 2(2) [OF Some True] Some True show ?thesis
        by (auto simp: node_at_dealloc split: if_splits)
    next
      case False
      from 2(3) [OF Some False] Some False show ?thesis by simp
    qed
  qed
qed

lemma nxt_release: "nxt (release a s) = nxt s"
  by (simp add: release_def nxt_sweep del: sweep.simps)

lemma held_release: "held (release a s) b = (if b = a then held s a - 1 else held s b)"
  by (simp add: release_def held_sweep del: sweep.simps)

lemma node_at_release:
  "node_at (release a s) b = None \<or> node_at (release a s) b = node_at s b"
  using node_at_sweep [of "[a]" "s\<lparr>held := (held s)(a := held s a - 1)\<rparr>" b]
  by (simp add: release_def node_at_def del: sweep.simps)

lemma exec_ReplaceLeftWithLeaf:
  "exec (ReplaceLeftWithLeaf n v) s =
     exec (Release (nxt s)) (exec (ReplaceLeft n (Some (nxt s))) (exec (CreateLeaf v) s))"
  by (simp add: replaceLeftWithLeaf_def split_beta fst_createLeaf)

lemma exec_ReplaceRightWithLeaf:
  "exec (ReplaceRightWithLeaf n v) s =
     exec (Release (nxt s)) (exec (ReplaceRight n (Some (nxt s))) (exec (CreateLeaf v) s))"
  by (simp add: replaceRightWithLeaf_def split_beta fst_createLeaf)

lemma holds_createLeaf:
  "holds (snd (createLeaf v s)) a \<longleftrightarrow> a = nxt s \<or> holds s a"
  by (simp add: holds_def held_createLeaf)

lemma holds_replaceLeft: "holds s a \<Longrightarrow> holds (snd (replaceLeft n x s)) a"
  by (simp add: holds_def held_replaceLeft)

lemma holds_replaceRight: "holds s a \<Longrightarrow> holds (snd (replaceRight n x s)) a"
  by (simp add: holds_def held_replaceRight)

lemma reachable_core_induct [consumes 1, case_names init createLeaf fork replaceLeft replaceRight
    acquire release]:
  assumes "reachable s"
    and "P empty_store"
    and "\<And>s v. reachable s \<Longrightarrow> P s \<Longrightarrow> P (snd (createLeaf v s))"
    and "\<And>s v l r. reachable s \<Longrightarrow> P s \<Longrightarrow> holds_opt s l \<Longrightarrow> holds_opt s r \<Longrightarrow>
           P (snd (fork v l r s))"
    and "\<And>s n x. reachable s \<Longrightarrow> P s \<Longrightarrow> holds s n \<Longrightarrow> holds_opt s x \<Longrightarrow>
           P (snd (replaceLeft n x s))"
    and "\<And>s n x. reachable s \<Longrightarrow> P s \<Longrightarrow> holds s n \<Longrightarrow> holds_opt s x \<Longrightarrow>
           P (snd (replaceRight n x s))"
    and "\<And>s n h. reachable s \<Longrightarrow> P s \<Longrightarrow> holds s n \<Longrightarrow>
           h = getLeft s n \<or> h = getRight s n \<or> h = getParent s n \<Longrightarrow> P (acquire h s)"
    and "\<And>s a. reachable s \<Longrightarrow> P s \<Longrightarrow> holds s a \<Longrightarrow> P (release a s)"
  shows "P s"
  using assms(1)
proof (induction rule: reachable.induct)
  case init
  show ?case by (rule assms(2))
next
  case (step s c)
  show ?case
  proof (cases c)
    case (CreateLeaf v)
    with step assms(3) show ?thesis by simp
  next
    case (Fork v l r)
    with step assms(4) show ?thesis by simp
  next
    case (ReplaceLeft n x)
    with step assms(5) show ?thesis by simp
  next
    case (ReplaceRight n x)
    with step assms(6) show ?thesis by simp
  next
    case (RemoveLeft n)
    with step assms(5) [of s n None] show ?thesis by (simp add: removeLeft_def)
  next
    case (RemoveRight n)
    with step assms(6) [of s n None] show ?thesis by (simp add: removeRight_def)
  next
    case (ReplaceLeftWithLeaf n v)
    let ?s1 = "snd (createLeaf v s)"
    let ?s2 = "snd (replaceLeft n (Some (nxt s)) ?s1)"
    from ReplaceLeftWithLeaf step have n: "holds s n" by simp
    have r1: "reachable ?s1"
      using reachable.step [OF step(1), of "CreateLeaf v"] by simp
    have p1: "P ?s1" using assms(3) step by blast
    have v1: "holds ?s1 n" "holds_opt ?s1 (Some (nxt s))"
      using n by (simp_all add: holds_createLeaf)
    have r2: "reachable ?s2"
      using reachable.step [OF r1, of "ReplaceLeft n (Some (nxt s))"] v1 by simp
    have p2: "P ?s2" using assms(5) [OF r1 p1 v1] .
    have "holds ?s2 (nxt s)" using v1(2) by (simp add: holds_replaceLeft)
    from assms(8) [OF r2 p2 this] show ?thesis
      unfolding ReplaceLeftWithLeaf exec_ReplaceLeftWithLeaf by simp
  next
    case (ReplaceRightWithLeaf n v)
    let ?s1 = "snd (createLeaf v s)"
    let ?s2 = "snd (replaceRight n (Some (nxt s)) ?s1)"
    from ReplaceRightWithLeaf step have n: "holds s n" by simp
    have r1: "reachable ?s1"
      using reachable.step [OF step(1), of "CreateLeaf v"] by simp
    have p1: "P ?s1" using assms(3) step by blast
    have v1: "holds ?s1 n" "holds_opt ?s1 (Some (nxt s))"
      using n by (simp_all add: holds_createLeaf)
    have r2: "reachable ?s2"
      using reachable.step [OF r1, of "ReplaceRight n (Some (nxt s))"] v1 by simp
    have p2: "P ?s2" using assms(6) [OF r1 p1 v1] .
    have "holds ?s2 (nxt s)" using v1(2) by (simp add: holds_replaceRight)
    from assms(8) [OF r2 p2 this] show ?thesis
      unfolding ReplaceRightWithLeaf exec_ReplaceRightWithLeaf by simp
  next
    case (GetLeft n)
    with step assms(7) [of s n "getLeft s n"] show ?thesis by simp
  next
    case (GetRight n)
    with step assms(7) [of s n "getRight s n"] show ?thesis by simp
  next
    case (GetParent n)
    with step assms(7) [of s n "getParent s n"] show ?thesis by simp
  next
    case (Release a)
    with step assms(8) show ?thesis by simp
  qed
qed

lemma well_formedD:
  assumes "well_formed s"
  shows "live s a \<Longrightarrow> a < nxt s"
    and "node_at s a = Some x \<Longrightarrow> left x = Some c \<Longrightarrow> c < nxt s"
    and "node_at s a = Some x \<Longrightarrow> right x = Some c \<Longrightarrow> c < nxt s"
    and "node_at s a = Some x \<Longrightarrow> parent x = Some c \<Longrightarrow> c < nxt s"
    and "holds s a \<Longrightarrow> a < nxt s"
  using assms unfolding well_formed_def by blast+

lemma well_formed_node: "well_formed s \<Longrightarrow> node_at s a = Some x \<Longrightarrow> a < nxt s"
  by (auto simp: well_formed_def live_def)

lemma well_formed_fresh: "well_formed s \<Longrightarrow> node_at s (nxt s) = None"
  using well_formed_node [of s "nxt s"] by (cases "node_at s (nxt s)") auto

lemma holds_opt_below: "well_formed s \<Longrightarrow> holds_opt s h \<Longrightarrow> h = Some c \<Longrightarrow> c < nxt s"
  by (auto simp: well_formed_def)

lemma well_formed_empty: "well_formed empty_store"
  by (simp add: well_formed_def empty_store_def live_def node_at_def holds_def)

lemma well_formed_createLeaf:
  assumes "well_formed s" shows "well_formed (snd (createLeaf v s))"
  unfolding well_formed_def
proof (intro conjI allI impI)
  fix a assume "live (snd (createLeaf v s)) a"
  then show "a < nxt (snd (createLeaf v s))"
    using well_formedD(1) [OF assms, of a]
    by (auto simp: live_def node_at_createLeaf nxt_createLeaf split: if_splits)
next
  fix a x c
  assume "node_at (snd (createLeaf v s)) a = Some x"
    and "left x = Some c \<or> right x = Some c \<or> parent x = Some c"
  then show "c < nxt (snd (createLeaf v s))"
    using well_formedD(2-4) [OF assms, of a x c]
    by (auto simp: node_at_createLeaf nxt_createLeaf split: if_splits)
next
  fix a assume "holds (snd (createLeaf v s)) a"
  then show "a < nxt (snd (createLeaf v s))"
    using well_formedD(5) [OF assms, of a]
    by (auto simp: holds_createLeaf nxt_createLeaf)
qed

lemma well_formed_fork:
  assumes "well_formed s" and "holds_opt s l" and "holds_opt s r"
  shows "well_formed (snd (fork v l r s))"
  unfolding well_formed_def
proof (intro conjI allI impI)
  fix a assume "live (snd (fork v l r s)) a"
  then show "a < nxt (snd (fork v l r s))"
    using well_formedD(1) [OF assms(1), of a]
    by (auto simp: live_def node_at_fork nxt_fork split: if_splits)
next
  fix a x c
  assume "node_at (snd (fork v l r s)) a = Some x"
    and "left x = Some c \<or> right x = Some c \<or> parent x = Some c"
  then show "c < nxt (snd (fork v l r s))"
    using well_formedD(2-4) [OF assms(1), of a _ c] holds_opt_below [OF assms(1,2), of c]
      holds_opt_below [OF assms(1,3), of c]
    by (auto simp: node_at_fork nxt_fork less_Suc_eq split: if_splits)
next
  fix a assume "holds (snd (fork v l r s)) a"
  then show "a < nxt (snd (fork v l r s))"
    using well_formedD(5) [OF assms(1), of a]
    by (auto simp: holds_def held_fork nxt_fork split: if_splits)
qed

lemma well_formed_replaceLeft:
  assumes "well_formed s" and "holds s n" and "holds_opt s x"
  shows "well_formed (snd (replaceLeft n x s))"
  unfolding well_formed_def
proof (intro conjI allI impI)
  fix a assume "live (snd (replaceLeft n x s)) a"
  then show "a < nxt (snd (replaceLeft n x s))"
    using well_formedD(1) [OF assms(1), of a] by (simp add: live_replaceLeft nxt_replaceLeft)
next
  fix a y c
  assume "node_at (snd (replaceLeft n x s)) a = Some y"
    and "left y = Some c \<or> right y = Some c \<or> parent y = Some c"
  then show "c < nxt (snd (replaceLeft n x s))"
    using well_formedD(2-4) [OF assms(1), of a _ c] holds_opt_below [OF assms(1,3), of c]
      well_formedD(5) [OF assms(1,2)]
    by (auto simp: node_at_replaceLeft nxt_replaceLeft split: if_splits)
next
  fix a assume "holds (snd (replaceLeft n x s)) a"
  then show "a < nxt (snd (replaceLeft n x s))"
    using well_formedD(5) [OF assms(1), of a] well_formedD(2) [OF assms(1), of n _ a]
    by (auto simp: holds_def held_replaceLeft nxt_replaceLeft getLeft_def
        split: if_splits option.splits)
qed

lemma well_formed_replaceRight:
  assumes "well_formed s" and "holds s n" and "holds_opt s x"
  shows "well_formed (snd (replaceRight n x s))"
  unfolding well_formed_def
proof (intro conjI allI impI)
  fix a assume "live (snd (replaceRight n x s)) a"
  then show "a < nxt (snd (replaceRight n x s))"
    using well_formedD(1) [OF assms(1), of a] by (simp add: live_replaceRight nxt_replaceRight)
next
  fix a y c
  assume "node_at (snd (replaceRight n x s)) a = Some y"
    and "left y = Some c \<or> right y = Some c \<or> parent y = Some c"
  then show "c < nxt (snd (replaceRight n x s))"
    using well_formedD(2-4) [OF assms(1), of a _ c] holds_opt_below [OF assms(1,3), of c]
      well_formedD(5) [OF assms(1,2)]
    by (auto simp: node_at_replaceRight nxt_replaceRight split: if_splits)
next
  fix a assume "holds (snd (replaceRight n x s)) a"
  then show "a < nxt (snd (replaceRight n x s))"
    using well_formedD(5) [OF assms(1), of a] well_formedD(3) [OF assms(1), of n _ a]
    by (auto simp: holds_def held_replaceRight nxt_replaceRight getRight_def
        split: if_splits option.splits)
qed

lemma well_formed_acquire:
  assumes "well_formed s"
    and "h = getLeft s n \<or> h = getRight s n \<or> h = getParent s n"
  shows "well_formed (acquire h s)"
  unfolding well_formed_def
proof (intro conjI allI impI)
  fix a assume "live (acquire h s) a"
  then show "a < nxt (acquire h s)"
    using well_formedD(1) [OF assms(1), of a] by (simp add: live_def node_at_acquire nxt_acquire)
next
  fix a y c
  assume "node_at (acquire h s) a = Some y"
    and "left y = Some c \<or> right y = Some c \<or> parent y = Some c"
  then show "c < nxt (acquire h s)"
    using well_formedD(2-4) [OF assms(1), of a y c] by (auto simp: node_at_acquire nxt_acquire)
next
  fix a assume "holds (acquire h s) a"
  then show "a < nxt (acquire h s)"
    using well_formedD(5) [OF assms(1), of a] well_formedD(2-4) [OF assms(1), of n _ a] assms(2)
    by (auto simp: holds_def held_acquire nxt_acquire getLeft_def getRight_def getParent_def
        lock_def split: if_splits option.splits)
qed

lemma well_formed_release:
  assumes "well_formed s"
  shows "well_formed (release a s)"
  unfolding well_formed_def
proof (intro conjI allI impI)
  fix b assume "live (release a s) b"
  then show "b < nxt (release a s)"
    using well_formedD(1) [OF assms(1), of b] node_at_release [of a s b]
    by (auto simp: live_def nxt_release)
next
  fix b y c
  assume "node_at (release a s) b = Some y"
    and "left y = Some c \<or> right y = Some c \<or> parent y = Some c"
  then show "c < nxt (release a s)"
    using well_formedD(2-4) [OF assms(1), of b y c] node_at_release [of a s b]
    by (auto simp: nxt_release)
next
  fix b assume "holds (release a s) b"
  then show "b < nxt (release a s)"
    using well_formedD(5) [OF assms(1), of b]
    by (auto simp: holds_def held_release nxt_release split: if_splits)
qed

lemma reachable_well_formed: "reachable s \<Longrightarrow> well_formed s"
proof (induction rule: reachable_core_induct)
  case init
  show ?case by (rule well_formed_empty)
next
  case (createLeaf s v)
  then show ?case by (simp add: well_formed_createLeaf)
next
  case (fork s v l r)
  then show ?case by (simp add: well_formed_fork)
next
  case (replaceLeft s n x)
  then show ?case by (simp add: well_formed_replaceLeft)
next
  case (replaceRight s n x)
  then show ?case by (simp add: well_formed_replaceRight)
next
  case (acquire s n h)
  then show ?case using well_formed_acquire by blast
next
  case (release s a)
  then show ?case by (simp add: well_formed_release)
qed

lemma parent_is_owner_nodes:
  "parent_is_owner s \<longleftrightarrow>
     (\<forall>c y p z. node_at s c = Some y \<longrightarrow> parent y = Some p \<longrightarrow> node_at s p = Some z \<longrightarrow>
        left z = Some c \<or> right z = Some c)"
  unfolding parent_is_owner_def getParent_def getLeft_def getRight_def lock_def live_def
  by (auto split: option.splits if_splits)

lemma parent_is_ownerD:
  "parent_is_owner s \<Longrightarrow> node_at s c = Some y \<Longrightarrow> parent y = Some p \<Longrightarrow> node_at s p = Some z
     \<Longrightarrow> left z = Some c \<or> right z = Some c"
  unfolding parent_is_owner_nodes by blast

lemma parent_is_owner_empty: "parent_is_owner empty_store"
  by (simp add: parent_is_owner_nodes empty_store_def node_at_def)

lemma node_at_createLeaf_old:
  assumes "node_at (snd (createLeaf v s)) b = Some y" and "b \<noteq> nxt s"
  shows "node_at s b = Some y"
  using assms by (simp add: node_at_createLeaf)

lemma parent_is_owner_createLeaf:
  assumes "parent_is_owner s" and "well_formed s"
  shows "parent_is_owner (snd (createLeaf v s))"
  unfolding parent_is_owner_nodes
proof (intro allI impI)
  fix c y p z
  assume c: "node_at (snd (createLeaf v s)) c = Some y" and p: "parent y = Some p"
    and z: "node_at (snd (createLeaf v s)) p = Some z"
  from c p have "c \<noteq> nxt s" by (auto simp: node_at_createLeaf split: if_splits)
  with c have c0: "node_at s c = Some y" by (simp add: node_at_createLeaf)
  from well_formedD(4) [OF assms(2) c0 p] z have z0: "node_at s p = Some z"
    by (simp add: node_at_createLeaf)
  from parent_is_ownerD [OF assms(1) c0 p z0] show "left z = Some c \<or> right z = Some c" .
qed

lemma node_at_forkD:
  assumes "node_at (snd (fork v l r s)) b = Some y" and "b \<noteq> nxt s"
  shows "\<exists>y0. node_at s b = Some y0 \<and> val y = val y0 \<and> left y = left y0 \<and> right y = right y0
           \<and> parent y = (if l = Some b \<or> r = Some b then Some (nxt s) else parent y0)"
  using assms by (auto simp: node_at_fork)

lemma parent_is_owner_fork:
  assumes "parent_is_owner s" and "well_formed s"
  shows "parent_is_owner (snd (fork v l r s))"
  unfolding parent_is_owner_nodes
proof (intro allI impI)
  fix c y p z
  assume c: "node_at (snd (fork v l r s)) c = Some y" and p: "parent y = Some p"
    and z: "node_at (snd (fork v l r s)) p = Some z"
  show "left z = Some c \<or> right z = Some c"
  proof (cases "c = nxt s")
    case True
    with c p z show ?thesis by (auto simp: node_at_fork split: if_splits)
  next
    case False
    from node_at_forkD [OF c False] obtain y0 where c0: "node_at s c = Some y0"
      and y: "parent y = (if l = Some c \<or> r = Some c then Some (nxt s) else parent y0)"
      by blast
    show ?thesis
    proof (cases "l = Some c \<or> r = Some c")
      case True
      with y p have "p = nxt s" by simp
      with z True show ?thesis by (auto simp: node_at_fork)
    next
      case lr: False
      with y p have p0: "parent y0 = Some p" by simp
      from well_formedD(4) [OF assms(2) c0 p0] have "p \<noteq> nxt s" by simp
      from node_at_forkD [OF z this] obtain z0 where z0: "node_at s p = Some z0"
        and "left z = left z0" "right z = right z0" by blast
      with parent_is_ownerD [OF assms(1) c0 p0 z0] show ?thesis by simp
    qed
  qed
qed

lemma node_at_replaceLeftD:
  assumes "node_at (snd (replaceLeft n x s)) b = Some y"
  shows "\<exists>y0. node_at s b = Some y0 \<and> val y = val y0
           \<and> left y = (if b = n then x else left y0) \<and> right y = right y0
           \<and> parent y = (if getLeft s n = Some b then None
                          else if x = Some b then Some n else parent y0)"
  using assms by (auto simp: node_at_replaceLeft)

lemma node_at_replaceRightD:
  assumes "node_at (snd (replaceRight n x s)) b = Some y"
  shows "\<exists>y0. node_at s b = Some y0 \<and> val y = val y0
           \<and> left y = left y0 \<and> right y = (if b = n then x else right y0)
           \<and> parent y = (if getRight s n = Some b then None
                          else if x = Some b then Some n else parent y0)"
  using assms by (auto simp: node_at_replaceRight)

lemma parent_is_owner_replaceLeft:
  assumes "parent_is_owner s"
  shows "parent_is_owner (snd (replaceLeft n x s))"
  unfolding parent_is_owner_nodes
proof (intro allI impI)
  fix c y p z
  assume c: "node_at (snd (replaceLeft n x s)) c = Some y" and p: "parent y = Some p"
    and z: "node_at (snd (replaceLeft n x s)) p = Some z"
  from node_at_replaceLeftD [OF c] obtain y0 where c0: "node_at s c = Some y0"
    and y: "parent y = (if getLeft s n = Some c then None
                        else if x = Some c then Some n else parent y0)"
    by blast
  from node_at_replaceLeftD [OF z] obtain z0 where z0: "node_at s p = Some z0"
    and zl: "left z = (if p = n then x else left z0)" and zr: "right z = right z0"
    by blast
  from p y have old: "getLeft s n \<noteq> Some c" by auto
  show "left z = Some c \<or> right z = Some c"
  proof (cases "x = Some c")
    case True
    with p y old have "p = n" by simp
    with zl True show ?thesis by simp
  next
    case False
    with p y old have p0: "parent y0 = Some p" by simp
    from parent_is_ownerD [OF assms c0 p0 z0] old z0 zl zr show ?thesis
      by (auto simp: getLeft_def)
  qed
qed

lemma parent_is_owner_replaceRight:
  assumes "parent_is_owner s"
  shows "parent_is_owner (snd (replaceRight n x s))"
  unfolding parent_is_owner_nodes
proof (intro allI impI)
  fix c y p z
  assume c: "node_at (snd (replaceRight n x s)) c = Some y" and p: "parent y = Some p"
    and z: "node_at (snd (replaceRight n x s)) p = Some z"
  from node_at_replaceRightD [OF c] obtain y0 where c0: "node_at s c = Some y0"
    and y: "parent y = (if getRight s n = Some c then None
                        else if x = Some c then Some n else parent y0)"
    by blast
  from node_at_replaceRightD [OF z] obtain z0 where z0: "node_at s p = Some z0"
    and zr: "right z = (if p = n then x else right z0)" and zl: "left z = left z0"
    by blast
  from p y have old: "getRight s n \<noteq> Some c" by auto
  show "left z = Some c \<or> right z = Some c"
  proof (cases "x = Some c")
    case True
    with p y old have "p = n" by simp
    with zr True show ?thesis by simp
  next
    case False
    with p y old have p0: "parent y0 = Some p" by simp
    from parent_is_ownerD [OF assms c0 p0 z0] old z0 zl zr show ?thesis
      by (auto simp: getRight_def)
  qed
qed

lemma parent_is_owner_acquire:
  "parent_is_owner s \<Longrightarrow> parent_is_owner (acquire h s)"
  by (simp add: parent_is_owner_nodes node_at_acquire)

lemma parent_is_owner_release:
  assumes "parent_is_owner s"
  shows "parent_is_owner (release a s)"
  unfolding parent_is_owner_nodes
proof (intro allI impI)
  fix c y p z
  assume "node_at (release a s) c = Some y" and "parent y = Some p"
    and "node_at (release a s) p = Some z"
  then show "left z = Some c \<or> right z = Some c"
    using parent_is_ownerD [OF assms(1), of c y p z] node_at_release [of a s c]
      node_at_release [of a s p]
    by auto
qed

lemma reachable_parent_is_owner: "reachable s \<Longrightarrow> parent_is_owner s"
proof (induction rule: reachable_core_induct)
  case init
  show ?case by (rule parent_is_owner_empty)
next
  case (createLeaf s v)
  then show ?case by (simp add: parent_is_owner_createLeaf reachable_well_formed)
next
  case (fork s v l r)
  then show ?case by (simp add: parent_is_owner_fork reachable_well_formed)
next
  case (replaceLeft s n x)
  then show ?case by (simp add: parent_is_owner_replaceLeft)
next
  case (replaceRight s n x)
  then show ?case by (simp add: parent_is_owner_replaceRight)
next
  case (acquire s n h)
  then show ?case by (simp add: parent_is_owner_acquire)
next
  case (release s a)
  then show ?case by (simp add: parent_is_owner_release)
qed

lemma has_child_nodes:
  "has_child s p c \<longleftrightarrow> (\<exists>y. node_at s p = Some y \<and> (left y = Some c \<or> right y = Some c))"
  by (auto simp: has_child_def getLeft_def getRight_def split: option.splits)

lemma slot_refs_pos: "0 < slot_refs s c p \<longleftrightarrow> has_child s p c"
  by (auto simp: slot_refs_def has_child_nodes split: option.splits)

lemma slot_refs_le1:
  "slot_refs s c p \<le> 1 \<longleftrightarrow> \<not> (getLeft s p = Some c \<and> getRight s p = Some c)"
  by (auto simp: slot_refs_def getLeft_def getRight_def split: option.splits)

lemma slot_refs_zero: "slot_refs s c p = 0 \<longleftrightarrow> \<not> has_child s p c"
  by (auto simp: slot_refs_def has_child_nodes split: option.splits)

lemma incoming_zero_iff:
  "incoming s c = 0 \<longleftrightarrow> (\<forall>p<nxt s. \<not> has_child s p c)"
  by (auto simp: incoming_def slot_refs_zero)

lemma has_child_below: "well_formed s \<Longrightarrow> has_child s p c \<Longrightarrow> p < nxt s"
  by (auto simp: has_child_nodes dest: well_formed_node)

lemma incoming_zero_wf:
  "well_formed s \<Longrightarrow> incoming s c = 0 \<longleftrightarrow> (\<forall>p. \<not> has_child s p c)"
  using has_child_below [of s _ c] by (auto simp: incoming_zero_iff)

lemma sum_list_upt_zero:
  fixes f :: "nat \<Rightarrow> nat"
  shows "sum_list (map f [0..<n]) = 0 \<longleftrightarrow> (\<forall>p<n. f p = 0)"
  by auto

lemma sum_list_upt_le1:
  fixes f :: "nat \<Rightarrow> nat"
  shows "sum_list (map f [0..<n]) \<le> 1 \<longleftrightarrow>
           (\<forall>p<n. f p \<le> 1) \<and> (\<forall>p<n. \<forall>q<n. 0 < f p \<and> 0 < f q \<longrightarrow> p = q)"
    (is "?L n \<longleftrightarrow> ?A n \<and> ?B n")
proof (induction n)
  case 0
  show ?case by simp
next
  case (Suc n)
  show ?case
  proof (cases "f n = 0")
    case True
    have "?A (Suc n) \<longleftrightarrow> ?A n"
      using True by (auto simp: less_Suc_eq)
    moreover have "?B (Suc n) \<longleftrightarrow> ?B n"
      using True by (auto simp: less_Suc_eq)
    moreover have "?L (Suc n) \<longleftrightarrow> ?L n" using True by simp
    ultimately show ?thesis using Suc by simp
  next
    case False
    show ?thesis
    proof
      assume "?L (Suc n)"
      then have "sum_list (map f [0..<n]) + f n \<le> 1" by simp
      with False have fn: "f n = 1" and "sum_list (map f [0..<n]) = 0" by linarith+
      then have z: "\<forall>p<n. f p = 0" by (simp only: sum_list_upt_zero)
      have "?A (Suc n)"
      proof (intro allI impI)
        fix p assume "p < Suc n"
        with z fn show "f p \<le> 1" by (cases "p = n") auto
      qed
      moreover have "?B (Suc n)"
      proof (intro allI impI)
        fix p q assume "p < Suc n" "q < Suc n" "0 < f p \<and> 0 < f q"
        with z have "p = n" "q = n" by (auto simp: less_Suc_eq)
        then show "p = q" by simp
      qed
      ultimately show "?A (Suc n) \<and> ?B (Suc n)" ..
    next
      assume a: "?A (Suc n) \<and> ?B (Suc n)"
      then have "\<forall>p<Suc n. f p \<le> 1" ..
      then have "f n \<le> 1" by blast
      with False have fn: "f n = 1" by linarith
      have "\<forall>p<n. f p = 0"
      proof (intro allI impI)
        fix p assume p: "p < n"
        show "f p = 0"
        proof (rule ccontr)
          assume "f p \<noteq> 0"
          moreover from a have "\<forall>q<Suc n. 0 < f p \<and> 0 < f q \<longrightarrow> p = q"
            using p by (meson less_Suc_eq)
          then have "0 < f p \<and> 0 < f n \<longrightarrow> p = n" by blast
          ultimately have "p = n" using fn by simp
          with p show False by simp
        qed
      qed
      then have "sum_list (map f [0..<n]) = 0" by (simp only: sum_list_upt_zero)
      with fn show "?L (Suc n)" by simp
    qed
  qed
qed

lemma single_owner_iff:
  assumes "well_formed s"
  shows "single_owner s \<longleftrightarrow>
     (\<forall>c p. \<not> (getLeft s p = Some c \<and> getRight s p = Some c)) \<and>
     (\<forall>c p q. has_child s p c \<and> has_child s q c \<longrightarrow> p = q)"
proof -
  have "single_owner s \<longleftrightarrow>
      (\<forall>c. (\<forall>p<nxt s. \<not> (getLeft s p = Some c \<and> getRight s p = Some c)) \<and>
           (\<forall>p<nxt s. \<forall>q<nxt s. has_child s p c \<and> has_child s q c \<longrightarrow> p = q))"
    unfolding single_owner_def incoming_def sum_list_upt_le1 slot_refs_le1 slot_refs_pos ..
  also have "\<dots> \<longleftrightarrow> (\<forall>c p. \<not> (getLeft s p = Some c \<and> getRight s p = Some c)) \<and>
     (\<forall>c p q. has_child s p c \<and> has_child s q c \<longrightarrow> p = q)"
    using has_child_below [OF assms] unfolding has_child_def by (intro iffI) blast+
  finally show ?thesis .
qed

lemma getLeft_createLeaf:
  "getLeft (snd (createLeaf v s)) p = (if p = nxt s then None else getLeft s p)"
  by (simp add: getLeft_def node_at_createLeaf)

lemma getRight_createLeaf:
  "getRight (snd (createLeaf v s)) p = (if p = nxt s then None else getRight s p)"
  by (simp add: getRight_def node_at_createLeaf)

lemma getLeft_fork:
  "getLeft (snd (fork v l r s)) p = (if p = nxt s then l else getLeft s p)"
  by (simp add: getLeft_def node_at_fork split: option.splits)

lemma getRight_fork:
  "getRight (snd (fork v l r s)) p = (if p = nxt s then r else getRight s p)"
  by (simp add: getRight_def node_at_fork split: option.splits)

lemma getLeft_replaceLeft:
  "getLeft (snd (replaceLeft n x s)) p = (if p = n \<and> live s n then x else getLeft s p)"
  by (simp add: getLeft_def node_at_replaceLeft live_def split: option.splits)

lemma getRight_replaceLeft: "getRight (snd (replaceLeft n x s)) p = getRight s p"
  by (simp add: getRight_def node_at_replaceLeft split: option.splits)

lemma getRight_replaceRight:
  "getRight (snd (replaceRight n x s)) p = (if p = n \<and> live s n then x else getRight s p)"
  by (simp add: getRight_def node_at_replaceRight live_def split: option.splits)

lemma getLeft_replaceRight: "getLeft (snd (replaceRight n x s)) p = getLeft s p"
  by (simp add: getLeft_def node_at_replaceRight split: option.splits)

lemma getLeft_acquire: "getLeft (acquire h s) p = getLeft s p"
  by (simp add: getLeft_def node_at_acquire)

lemma getRight_acquire: "getRight (acquire h s) p = getRight s p"
  by (simp add: getRight_def node_at_acquire)

lemma getLeft_release:
  assumes "getLeft (release a s) p = Some c"
  shows "getLeft s p = Some c"
proof -
  from assms obtain y where y: "node_at (release a s) p = Some y" "left y = Some c"
    by (auto simp: getLeft_def split: option.splits)
  with node_at_release [of a s p] have "node_at s p = Some y" by simp
  with y show ?thesis by (simp add: getLeft_def)
qed

lemma getRight_release:
  assumes "getRight (release a s) p = Some c"
  shows "getRight s p = Some c"
proof -
  from assms obtain y where y: "node_at (release a s) p = Some y" "right y = Some c"
    by (auto simp: getRight_def split: option.splits)
  with node_at_release [of a s p] have "node_at s p = Some y" by simp
  with y show ?thesis by (simp add: getRight_def)
qed

lemma has_child_release: "has_child (release a s) p c \<Longrightarrow> has_child s p c"
  by (auto simp: has_child_def dest: getLeft_release getRight_release)

lemma tidy_invD:
  assumes "tidy_inv s"
  shows "getLeft s p = Some c \<Longrightarrow> getRight s p \<noteq> Some c"
    and "has_child s p c \<Longrightarrow> has_child s q c \<Longrightarrow> p = q"
    and "has_child s p c \<Longrightarrow> node_at s c = Some y \<Longrightarrow> parent y = Some p"
  using assms unfolding tidy_inv_def by blast+

lemma tidy_inv_empty: "tidy_inv empty_store"
  by (simp add: tidy_inv_def has_child_def getLeft_def getRight_def node_at_def empty_store_def)

lemma has_child_fresh: "well_formed s \<Longrightarrow> \<not> has_child s (nxt s) c"
  using has_child_below [of s "nxt s" c] by auto

lemma has_child_of_fresh: "well_formed s \<Longrightarrow> \<not> has_child s p (nxt s)"
  by (auto simp: has_child_nodes dest: well_formedD(2,3))

lemma tidy_inv_createLeaf:
  assumes "tidy_inv s" and "well_formed s"
  shows "tidy_inv (snd (createLeaf v s))"
proof -
  have hc: "has_child (snd (createLeaf v s)) p c \<longleftrightarrow> has_child s p c" for p c
    using has_child_fresh [OF assms(2), of c]
    by (auto simp: has_child_def getLeft_createLeaf getRight_createLeaf)
  show ?thesis
    unfolding tidy_inv_def hc
  proof (intro conjI allI impI)
    fix p c
    show "\<not> (getLeft (snd (createLeaf v s)) p = Some c \<and> getRight (snd (createLeaf v s)) p = Some c)"
      using tidy_invD(1) [OF assms(1), of p c]
      by (auto simp: getLeft_createLeaf getRight_createLeaf)
  next
    fix c p q assume "has_child s p c \<and> has_child s q c"
    then show "p = q" using tidy_invD(2) [OF assms(1)] by blast
  next
    fix p c y
    assume a: "has_child s p c \<and> node_at (snd (createLeaf v s)) c = Some y"
    with has_child_of_fresh [OF assms(2), of p] have "c \<noteq> nxt s" by auto
    with a have "node_at s c = Some y" by (simp add: node_at_createLeaf)
    with a show "parent y = Some p" using tidy_invD(3) [OF assms(1)] by blast
  qed
qed

lemma unattachedD:
  "well_formed s \<Longrightarrow> unattached s (Some c) \<Longrightarrow> \<not> has_child s p c"
  by (simp add: unattached_def incoming_zero_wf)

lemma tidy_inv_fork:
  assumes "tidy_inv s" and "well_formed s"
    and "unattached s l" and "unattached s r" and "l = None \<or> l \<noteq> r"
    and "holds_opt s l" and "holds_opt s r"
  shows "tidy_inv (snd (fork v l r s))"
proof -
  let ?s' = "snd (fork v l r s)"
  have hc: "has_child ?s' p c \<longleftrightarrow> (if p = nxt s then l = Some c \<or> r = Some c else has_child s p c)"
    for p c
    by (auto simp: has_child_def getLeft_fork getRight_fork)
  have un: "l = Some c \<or> r = Some c \<Longrightarrow> \<not> has_child s p c" for p c
    using unattachedD [OF assms(2), of c p] assms(3,4) by auto
  show ?thesis
    unfolding tidy_inv_def
  proof (intro conjI allI impI)
    fix p c
    show "\<not> (getLeft ?s' p = Some c \<and> getRight ?s' p = Some c)"
      using tidy_invD(1) [OF assms(1), of p c] assms(5)
      by (auto simp: getLeft_fork getRight_fork)
  next
    fix c p q assume "has_child ?s' p c \<and> has_child ?s' q c"
    then show "p = q" using tidy_invD(2) [OF assms(1), of p c q] un [of c]
      by (auto simp: hc split: if_splits)
  next
    fix p c y
    assume a: "has_child ?s' p c \<and> node_at ?s' c = Some y"
    show "parent y = Some p"
    proof (cases "p = nxt s")
      case True
      with a have lr: "l = Some c \<or> r = Some c" by (simp add: hc)
      with holds_opt_below [OF assms(2,6), of c] holds_opt_below [OF assms(2,7), of c]
      have "c \<noteq> nxt s" by auto
      with a lr True show ?thesis by (auto simp: node_at_fork)
    next
      case False
      with a have h: "has_child s p c" by (simp add: hc)
      with has_child_of_fresh [OF assms(2), of p] have c: "c \<noteq> nxt s" by auto
      from un [of c p] h have "\<not> (l = Some c \<or> r = Some c)" by blast
      with a c obtain y0 where "node_at s c = Some y0" "parent y = parent y0"
        by (auto simp: node_at_fork)
      with tidy_invD(3) [OF assms(1) h] show ?thesis by simp
    qed
  qed
qed

lemma tidy_inv_replaceLeft:
  assumes "tidy_inv s" and "well_formed s" and "unattached s x"
  shows "tidy_inv (snd (replaceLeft n x s))"
proof -
  let ?s' = "snd (replaceLeft n x s)"
  have un: "x = Some c \<Longrightarrow> \<not> has_child s p c" for p c
    using unattachedD [OF assms(2), of c p] assms(3) by auto
  have hc: "has_child ?s' p c \<Longrightarrow> has_child s p c \<or> (p = n \<and> live s n \<and> x = Some c)" for p c
    by (auto simp: has_child_def getLeft_replaceLeft getRight_replaceLeft split: if_splits)
  show ?thesis
    unfolding tidy_inv_def
  proof (intro conjI allI impI)
    fix p c
    show "\<not> (getLeft ?s' p = Some c \<and> getRight ?s' p = Some c)"
      using tidy_invD(1) [OF assms(1), of p c] un [of c p]
      by (auto simp: getLeft_replaceLeft getRight_replaceLeft has_child_def split: if_splits)
  next
    fix c p q assume a: "has_child ?s' p c \<and> has_child ?s' q c"
    with hc [of p c] hc [of q c] un [of c] tidy_invD(2) [OF assms(1), of p c q]
    show "p = q" by blast
  next
    fix p c y
    assume a: "has_child ?s' p c \<and> node_at ?s' c = Some y"
    then obtain y0 where y0: "node_at s c = Some y0"
      and py: "parent y = (if getLeft s n = Some c then None
                           else if x = Some c then Some n else parent y0)"
      using node_at_replaceLeftD [of n x s c y] by blast
    show "parent y = Some p"
    proof (cases "x = Some c")
      case True
      with un [of c] have nohc: "\<And>q. \<not> has_child s q c" by blast
      with hc [of p c] a have "p = n" by blast
      moreover from nohc [of n] have "getLeft s n \<noteq> Some c" by (simp add: has_child_def)
      ultimately show ?thesis using py True by simp
    next
      case False
      with hc [of p c] a have h: "has_child s p c" by blast
      have "getLeft s n \<noteq> Some c"
      proof
        assume l: "getLeft s n = Some c"
        then have "has_child s n c" by (simp add: has_child_def)
        with tidy_invD(2) [OF assms(1) h] have "p = n" by blast
        moreover from l have "live s n" by (auto simp: getLeft_def live_def split: option.splits)
        moreover from tidy_invD(1) [OF assms(1) l] have "getRight s n \<noteq> Some c" .
        ultimately show False using a False
          by (auto simp: has_child_def getLeft_replaceLeft getRight_replaceLeft)
      qed
      with py False tidy_invD(3) [OF assms(1) h y0] show ?thesis by simp
    qed
  qed
qed

lemma tidy_inv_replaceRight:
  assumes "tidy_inv s" and "well_formed s" and "unattached s x"
  shows "tidy_inv (snd (replaceRight n x s))"
proof -
  let ?s' = "snd (replaceRight n x s)"
  have un: "x = Some c \<Longrightarrow> \<not> has_child s p c" for p c
    using unattachedD [OF assms(2), of c p] assms(3) by auto
  have hc: "has_child ?s' p c \<Longrightarrow> has_child s p c \<or> (p = n \<and> live s n \<and> x = Some c)" for p c
    by (auto simp: has_child_def getLeft_replaceRight getRight_replaceRight split: if_splits)
  show ?thesis
    unfolding tidy_inv_def
  proof (intro conjI allI impI)
    fix p c
    show "\<not> (getLeft ?s' p = Some c \<and> getRight ?s' p = Some c)"
      using tidy_invD(1) [OF assms(1), of p c] un [of c p]
      by (auto simp: getLeft_replaceRight getRight_replaceRight has_child_def split: if_splits)
  next
    fix c p q assume a: "has_child ?s' p c \<and> has_child ?s' q c"
    with hc [of p c] hc [of q c] un [of c] tidy_invD(2) [OF assms(1), of p c q]
    show "p = q" by blast
  next
    fix p c y
    assume a: "has_child ?s' p c \<and> node_at ?s' c = Some y"
    then obtain y0 where y0: "node_at s c = Some y0"
      and py: "parent y = (if getRight s n = Some c then None
                           else if x = Some c then Some n else parent y0)"
      using node_at_replaceRightD [of n x s c y] by blast
    show "parent y = Some p"
    proof (cases "x = Some c")
      case True
      with un [of c] have nohc: "\<And>q. \<not> has_child s q c" by blast
      with hc [of p c] a have "p = n" by blast
      moreover from nohc [of n] have "getRight s n \<noteq> Some c" by (simp add: has_child_def)
      ultimately show ?thesis using py True by simp
    next
      case False
      with hc [of p c] a have h: "has_child s p c" by blast
      have "getRight s n \<noteq> Some c"
      proof
        assume l: "getRight s n = Some c"
        then have "has_child s n c" by (simp add: has_child_def)
        with tidy_invD(2) [OF assms(1) h] have "p = n" by blast
        moreover from l have "live s n" by (auto simp: getRight_def live_def split: option.splits)
        moreover from tidy_invD(1) [OF assms(1), of n c] l have "getLeft s n \<noteq> Some c" by blast
        ultimately show False using a False
          by (auto simp: has_child_def getLeft_replaceRight getRight_replaceRight)
      qed
      with py False tidy_invD(3) [OF assms(1) h y0] show ?thesis by simp
    qed
  qed
qed

lemma tidy_inv_acquire: "tidy_inv s \<Longrightarrow> tidy_inv (acquire h s)"
  by (simp add: tidy_inv_def has_child_def getLeft_acquire getRight_acquire node_at_acquire)

lemma tidy_inv_release:
  assumes "tidy_inv s"
  shows "tidy_inv (release a s)"
  unfolding tidy_inv_def
proof (intro conjI allI impI)
  fix p c
  show "\<not> (getLeft (release a s) p = Some c \<and> getRight (release a s) p = Some c)"
    using tidy_invD(1) [OF assms, of p c] getLeft_release getRight_release by blast
next
  fix c p q assume "has_child (release a s) p c \<and> has_child (release a s) q c"
  then show "p = q" using tidy_invD(2) [OF assms, of p c q] has_child_release by blast
next
  fix p c y
  assume a: "has_child (release a s) p c \<and> node_at (release a s) c = Some y"
  with node_at_release [of a s c] have "node_at s c = Some y" by auto
  with a show "parent y = Some p"
    using tidy_invD(3) [OF assms, of p c y] has_child_release by blast
qed

lemma reachable_tidy_reachable: "reachable_tidy s \<Longrightarrow> reachable s"
  by (induction rule: reachable_tidy.induct) (auto intro: reachable.intros)

lemma has_child_createLeaf:
  "well_formed s \<Longrightarrow> has_child (snd (createLeaf v s)) p c \<longleftrightarrow> has_child s p c"
  using has_child_fresh [of s c]
  by (auto simp: has_child_def getLeft_createLeaf getRight_createLeaf)

lemma unattached_fresh:
  assumes "well_formed s"
  shows "unattached (snd (createLeaf v s)) (Some (nxt s))"
  using has_child_of_fresh [OF assms]
  by (simp add: unattached_def incoming_zero_iff has_child_createLeaf [OF assms])

lemma reachable_tidy_core_induct [consumes 1, case_names init createLeaf fork replaceLeft
    replaceRight acquire release]:
  assumes "reachable_tidy s"
    and "P empty_store"
    and "\<And>s v. reachable_tidy s \<Longrightarrow> P s \<Longrightarrow> P (snd (createLeaf v s))"
    and "\<And>s v l r. reachable_tidy s \<Longrightarrow> P s \<Longrightarrow> holds_opt s l \<Longrightarrow> holds_opt s r \<Longrightarrow>
           unattached s l \<Longrightarrow> unattached s r \<Longrightarrow> l = None \<or> l \<noteq> r \<Longrightarrow>
           P (snd (fork v l r s))"
    and "\<And>s n x. reachable_tidy s \<Longrightarrow> P s \<Longrightarrow> holds s n \<Longrightarrow> holds_opt s x \<Longrightarrow>
           unattached s x \<Longrightarrow> P (snd (replaceLeft n x s))"
    and "\<And>s n x. reachable_tidy s \<Longrightarrow> P s \<Longrightarrow> holds s n \<Longrightarrow> holds_opt s x \<Longrightarrow>
           unattached s x \<Longrightarrow> P (snd (replaceRight n x s))"
    and "\<And>s n h. reachable_tidy s \<Longrightarrow> P s \<Longrightarrow> holds s n \<Longrightarrow>
           h = getLeft s n \<or> h = getRight s n \<or> h = getParent s n \<Longrightarrow> P (acquire h s)"
    and "\<And>s a. reachable_tidy s \<Longrightarrow> P s \<Longrightarrow> holds s a \<Longrightarrow> P (release a s)"
  shows "P s"
  using assms(1)
proof (induction rule: reachable_tidy.induct)
  case tidy_init
  show ?case by (rule assms(2))
next
  case (tidy_step s c)
  have none: "unattached s None" by (simp add: unattached_def)
  have wf: "well_formed s"
    using tidy_step(1) by (simp add: reachable_tidy_reachable reachable_well_formed)
  show ?case
  proof (cases c)
    case (CreateLeaf v)
    with tidy_step assms(3) show ?thesis by simp
  next
    case (Fork v l r)
    with tidy_step assms(4) show ?thesis by simp
  next
    case (ReplaceLeft n x)
    with tidy_step assms(5) show ?thesis by simp
  next
    case (ReplaceRight n x)
    with tidy_step assms(6) show ?thesis by simp
  next
    case (RemoveLeft n)
    with tidy_step assms(5) [of s n None] none show ?thesis by (simp add: removeLeft_def)
  next
    case (RemoveRight n)
    with tidy_step assms(6) [of s n None] none show ?thesis by (simp add: removeRight_def)
  next
    case (ReplaceLeftWithLeaf n v)
    let ?s1 = "snd (createLeaf v s)"
    let ?s2 = "snd (replaceLeft n (Some (nxt s)) ?s1)"
    from ReplaceLeftWithLeaf tidy_step have n: "holds s n" by simp
    have r1: "reachable_tidy ?s1"
      using reachable_tidy.tidy_step [OF tidy_step(1), of "CreateLeaf v"] by simp
    have p1: "P ?s1" using assms(3) tidy_step by blast
    have v1: "holds ?s1 n" "holds_opt ?s1 (Some (nxt s))"
      using n by (simp_all add: holds_createLeaf)
    have u1: "unattached ?s1 (Some (nxt s))" by (rule unattached_fresh [OF wf])
    have r2: "reachable_tidy ?s2"
      using reachable_tidy.tidy_step [OF r1, of "ReplaceLeft n (Some (nxt s))"] v1 u1 by simp
    have p2: "P ?s2" using assms(5) [OF r1 p1 v1 u1] .
    have "holds ?s2 (nxt s)" using v1(2) by (simp add: holds_replaceLeft)
    from assms(8) [OF r2 p2 this] show ?thesis
      unfolding ReplaceLeftWithLeaf exec_ReplaceLeftWithLeaf by simp
  next
    case (ReplaceRightWithLeaf n v)
    let ?s1 = "snd (createLeaf v s)"
    let ?s2 = "snd (replaceRight n (Some (nxt s)) ?s1)"
    from ReplaceRightWithLeaf tidy_step have n: "holds s n" by simp
    have r1: "reachable_tidy ?s1"
      using reachable_tidy.tidy_step [OF tidy_step(1), of "CreateLeaf v"] by simp
    have p1: "P ?s1" using assms(3) tidy_step by blast
    have v1: "holds ?s1 n" "holds_opt ?s1 (Some (nxt s))"
      using n by (simp_all add: holds_createLeaf)
    have u1: "unattached ?s1 (Some (nxt s))" by (rule unattached_fresh [OF wf])
    have r2: "reachable_tidy ?s2"
      using reachable_tidy.tidy_step [OF r1, of "ReplaceRight n (Some (nxt s))"] v1 u1 by simp
    have p2: "P ?s2" using assms(6) [OF r1 p1 v1 u1] .
    have "holds ?s2 (nxt s)" using v1(2) by (simp add: holds_replaceRight)
    from assms(8) [OF r2 p2 this] show ?thesis
      unfolding ReplaceRightWithLeaf exec_ReplaceRightWithLeaf by simp
  next
    case (GetLeft n)
    with tidy_step assms(7) [of s n "getLeft s n"] show ?thesis by simp
  next
    case (GetRight n)
    with tidy_step assms(7) [of s n "getRight s n"] show ?thesis by simp
  next
    case (GetParent n)
    with tidy_step assms(7) [of s n "getParent s n"] show ?thesis by simp
  next
    case (Release a)
    with tidy_step assms(8) show ?thesis by simp
  qed
qed

lemma reachable_tidy_inv: "reachable_tidy s \<Longrightarrow> tidy_inv s"
proof (induction rule: reachable_tidy_core_induct)
  case init
  show ?case by (rule tidy_inv_empty)
next
  case (createLeaf s v)
  then show ?case
    by (simp add: tidy_inv_createLeaf reachable_tidy_reachable reachable_well_formed)
next
  case (fork s v l r)
  then show ?case
    by (simp add: tidy_inv_fork reachable_tidy_reachable reachable_well_formed)
next
  case (replaceLeft s n x)
  then show ?case
    by (simp add: tidy_inv_replaceLeft reachable_tidy_reachable reachable_well_formed)
next
  case (replaceRight s n x)
  then show ?case
    by (simp add: tidy_inv_replaceRight reachable_tidy_reachable reachable_well_formed)
next
  case (acquire s n h)
  then show ?case by (simp add: tidy_inv_acquire)
next
  case (release s a)
  then show ?case by (simp add: tidy_inv_release)
qed

lemma reachable_two_nodes: "reachable two_nodes"
proof -
  have "reachable (exec (CreateLeaf (1::nat)) empty_store)"
    by (rule reachable.step [OF reachable.init]) simp
  then show ?thesis
    unfolding two_nodes_def
    by (rule reachable.step) (simp add: createLeaf_def alloc_def empty_store_def holds_def)
qed

lemma reachable_three_nodes: "reachable three_nodes"
  unfolding three_nodes_def by (rule reachable.step [OF reachable_two_nodes]) simp

lemma stolen_leaf_eq:
  "stolen_leaf = \<lparr>heap = fmupd 2 \<lparr>val = 2, left = Some 0, right = None, parent = None\<rparr>
                       (fmupd 0 \<lparr>val = 1, left = None, right = None, parent = Some 2\<rparr>
                       (heap three_nodes)),
                 nxt = 3, held = (\<lambda>_. 0)(0 := 1, 1 := 1, 2 := 1)\<rparr>"
  by (simp add: stolen_leaf_def three_nodes_eq op_defs Let_def)

lemma reachable_tidy_two_nodes: "reachable_tidy two_nodes"
proof -
  have "reachable_tidy (exec (CreateLeaf (1::nat)) empty_store)"
    by (rule reachable_tidy.tidy_step [OF reachable_tidy.tidy_init]) simp_all
  then show ?thesis
    unfolding two_nodes_def
    by (rule reachable_tidy.tidy_step)
      (simp_all add: createLeaf_def alloc_def empty_store_def holds_def unattached_def
        incoming_def slot_refs_def node_at_def)
qed

lemma shared_leaf_eq:
  "shared_leaf = \<lparr>heap = fmupd 0 \<lparr>val = 1, left = None, right = None, parent = Some 2\<rparr>
                     (fmupd 2 \<lparr>val = 5, left = Some 0, right = None, parent = None\<rparr>
                     (heap two_nodes)),
                 nxt = 3, held = (\<lambda>_. 0)(0 := 1, 1 := 1, 2 := 1)\<rparr>"
  by (simp add: shared_leaf_def two_nodes_eq op_defs Let_def)

lemma node_at_mirror: "node_at (mirror s) b = map_option mirror_node (node_at s b)"
  by (simp add: mirror_def node_at_def)

lemma getLeft_mirror: "getLeft (mirror s) n = getRight s n"
  by (simp add: getLeft_def getRight_def node_at_mirror mirror_node_def split: option.splits)

lemma store_eqI:
  assumes "\<And>b. node_at s b = node_at t b" and "nxt s = nxt t" and "held s = held t"
    and "store.more s = store.more t"
  shows "s = t"
proof -
  from assms(1) have "heap s = heap t" by (intro fmap_ext) (simp add: node_at_def)
  with assms(2-4) show ?thesis by (simp add: store.equality)
qed

lemma replaceRight_mirror:
  "replaceRight n x s = (fst (replaceLeft n x (mirror s)), mirror (snd (replaceLeft n x (mirror s))))"
proof (rule prod_eqI)
  show "fst (replaceRight n x s)
      = fst (fst (replaceLeft n x (mirror s)), mirror (snd (replaceLeft n x (mirror s))))"
    by (simp add: fst_replaceLeft fst_replaceRight getLeft_mirror)
next
  have "snd (replaceRight n x s) = mirror (snd (replaceLeft n x (mirror s)))"
  proof (rule store_eqI)
    fix b
    show "node_at (snd (replaceRight n x s)) b
        = node_at (mirror (snd (replaceLeft n x (mirror s)))) b"
      by (cases "node_at s b")
        (simp_all add: node_at_mirror node_at_replaceLeft node_at_replaceRight getLeft_mirror
          mirror_node_def)
  next
    show "nxt (snd (replaceRight n x s)) = nxt (mirror (snd (replaceLeft n x (mirror s))))"
      by (simp add: nxt_replaceRight mirror_def nxt_replaceLeft)
  next
    show "held (snd (replaceRight n x s)) = held (mirror (snd (replaceLeft n x (mirror s))))"
      by (rule ext) (simp add: held_replaceRight mirror_def held_replaceLeft getLeft_mirror
          getLeft_mirror [unfolded mirror_def])
  next
    show "store.more (snd (replaceRight n x s))
        = store.more (mirror (snd (replaceLeft n x (mirror s))))"
      by (simp add: replaceRight_def replaceLeft_def Let_def mirror_def acquire_def modify_def
          setParent_def split: option.splits)
  qed
  then show "snd (replaceRight n x s)
      = snd (fst (replaceLeft n x (mirror s)), mirror (snd (replaceLeft n x (mirror s))))"
    by simp
qed

section \<open>Lifetime of the objects\<close>

lemma use_count_zero_iff:
  "well_formed s \<Longrightarrow> use_count s a = 0 \<longleftrightarrow> \<not> holds s a \<and> (\<forall>p. \<not> has_child s p a)"
  by (simp add: use_count_def holds_def incoming_zero_wf)


lemma has_child_dealloc: "has_child (dealloc a s) p c \<longleftrightarrow> p \<noteq> a \<and> has_child s p c"
  by (auto simp: has_child_nodes node_at_dealloc)

lemma live_dealloc: "live (dealloc a s) b \<longleftrightarrow> b \<noteq> a \<and> live s b"
  by (auto simp: live_def node_at_dealloc)

lemma holds_dealloc: "holds (dealloc a s) b = holds s b"
  by (simp add: holds_def held_dealloc)

lemma well_formed_dealloc: "well_formed s \<Longrightarrow> well_formed (dealloc a s)"
  unfolding well_formed_def
  by (simp add: live_dealloc holds_dealloc nxt_dealloc node_at_dealloc)

lemma owners_alive_dealloc:
  assumes "owners_alive s" and "well_formed s" and "use_count s a = 0"
  shows "owners_alive (dealloc a s)"
  using assms use_count_zero_iff [OF assms(2), of a]
  unfolding owners_alive_def
  by (auto simp: live_dealloc holds_dealloc has_child_dealloc)

lemma sweep_owners_alive:
  "well_formed s \<Longrightarrow> owners_alive s \<Longrightarrow> owners_alive (sweep as s)"
proof (induction as s rule: sweep.induct)
  case (1 s)
  then show ?case by simp
next
  case (2 a as s)
  show ?case
  proof (cases "node_at s a")
    case None
    with 2 show ?thesis by simp
  next
    case (Some x)
    show ?thesis
    proof (cases "use_count s a = 0")
      case True
      from 2(2) [OF Some True well_formed_dealloc [OF 2(4)]
          owners_alive_dealloc [OF 2(5) 2(4) True]] Some True
      show ?thesis by simp
    next
      case False
      from 2(3) [OF Some False 2(4) 2(5)] Some False show ?thesis by simp
    qed
  qed
qed


lemma owners_aliveD:
  assumes "owners_alive s"
  shows "holds s a \<Longrightarrow> live s a" and "has_child s p c \<Longrightarrow> live s c"
  using assms unfolding owners_alive_def by blast+

lemma holds_opt_live: "owners_alive s \<Longrightarrow> holds_opt s h \<Longrightarrow> h = Some c \<Longrightarrow> live s c"
  by (auto dest: owners_aliveD(1))

lemma live_createLeaf: "live (snd (createLeaf v s)) b \<longleftrightarrow> b = nxt s \<or> live s b"
  by (simp add: live_def node_at_createLeaf)

lemma live_fork: "live (snd (fork v l r s)) b \<longleftrightarrow> b = nxt s \<or> live s b"
  by (simp add: live_def node_at_fork)

lemma holds_fork: "holds (snd (fork v l r s)) a \<longleftrightarrow> a = nxt s \<or> holds s a"
  by (simp add: holds_def held_fork)

lemma has_child_fork:
  "has_child (snd (fork v l r s)) p c \<longleftrightarrow>
     (if p = nxt s then l = Some c \<or> r = Some c else has_child s p c)"
  by (auto simp: has_child_def getLeft_fork getRight_fork)

lemma has_child_replaceLeft:
  "has_child (snd (replaceLeft n x s)) p c \<longleftrightarrow>
     (if p = n \<and> live s n then x = Some c \<or> getRight s n = Some c else has_child s p c)"
  by (auto simp: has_child_def getLeft_replaceLeft getRight_replaceLeft)

lemma has_child_replaceRight:
  "has_child (snd (replaceRight n x s)) p c \<longleftrightarrow>
     (if p = n \<and> live s n then getLeft s n = Some c \<or> x = Some c else has_child s p c)"
  by (auto simp: has_child_def getLeft_replaceRight getRight_replaceRight)

lemma holds_replaceLeft_iff:
  "holds (snd (replaceLeft n x s)) a \<longleftrightarrow> holds s a \<or> getLeft s n = Some a"
  by (simp add: holds_def held_replaceLeft)

lemma holds_replaceRight_iff:
  "holds (snd (replaceRight n x s)) a \<longleftrightarrow> holds s a \<or> getRight s n = Some a"
  by (simp add: holds_def held_replaceRight)

lemma holds_acquire: "holds (acquire h s) a \<longleftrightarrow> holds s a \<or> h = Some a"
  by (simp add: holds_def held_acquire)

lemma has_child_acquire: "has_child (acquire h s) p c = has_child s p c"
  by (simp add: has_child_def getLeft_acquire getRight_acquire)

lemma live_acquire: "live (acquire h s) a = live s a"
  by (simp add: live_def node_at_acquire)

lemma has_child_left: "getLeft s p = Some c \<Longrightarrow> has_child s p c"
  by (simp add: has_child_def)

lemma has_child_right: "getRight s p = Some c \<Longrightarrow> has_child s p c"
  by (simp add: has_child_def)

lemma owners_alive_empty: "owners_alive empty_store"
  by (simp add: owners_alive_def holds_def has_child_nodes empty_store_def node_at_def)

lemma owners_alive_createLeaf:
  "well_formed s \<Longrightarrow> owners_alive s \<Longrightarrow> owners_alive (snd (createLeaf v s))"
  unfolding owners_alive_def
  by (auto simp: holds_createLeaf live_createLeaf has_child_createLeaf)

lemma owners_alive_fork:
  assumes "owners_alive s" and "holds_opt s l" and "holds_opt s r"
  shows "owners_alive (snd (fork v l r s))"
  using owners_aliveD [OF assms(1)] holds_opt_live [OF assms(1,2)] holds_opt_live [OF assms(1,3)]
  unfolding owners_alive_def
  by (auto simp: holds_fork live_fork has_child_fork split: if_splits)

lemma owners_alive_replaceLeft:
  assumes "owners_alive s" and "holds_opt s x"
  shows "owners_alive (snd (replaceLeft n x s))"
  using owners_aliveD [OF assms(1)] holds_opt_live [OF assms(1,2)]
  unfolding owners_alive_def
  by (auto simp: holds_replaceLeft_iff live_replaceLeft has_child_replaceLeft
      dest: has_child_left has_child_right split: if_splits)

lemma owners_alive_replaceRight:
  assumes "owners_alive s" and "holds_opt s x"
  shows "owners_alive (snd (replaceRight n x s))"
  using owners_aliveD [OF assms(1)] holds_opt_live [OF assms(1,2)]
  unfolding owners_alive_def
  by (auto simp: holds_replaceRight_iff live_replaceRight has_child_replaceRight
      dest: has_child_left has_child_right split: if_splits)

lemma getParent_live: "getParent s n = Some a \<Longrightarrow> live s a"
  by (auto simp: getParent_def lock_def split: option.splits if_splits)

lemma owners_alive_acquire:
  assumes "owners_alive s"
    and "h = getLeft s n \<or> h = getRight s n \<or> h = getParent s n"
  shows "owners_alive (acquire h s)"
  using owners_aliveD [OF assms(1)] assms(2) getParent_live [of s n]
  unfolding owners_alive_def
  by (auto simp: holds_acquire live_acquire has_child_acquire
      dest: has_child_left [OF sym] has_child_right [OF sym])

lemma well_formed_held_update:
  "well_formed s \<Longrightarrow> well_formed (s\<lparr>held := (held s)(a := held s a - 1)\<rparr>)"
  unfolding well_formed_def by (auto simp: live_def node_at_def holds_def)

lemma owners_alive_held_update:
  "owners_alive s \<Longrightarrow> owners_alive (s\<lparr>held := (held s)(a := held s a - 1)\<rparr>)"
  unfolding owners_alive_def
  by (auto simp: live_def node_at_def holds_def has_child_def getLeft_def getRight_def)

lemma owners_alive_release:
  assumes "well_formed s" and "owners_alive s"
  shows "owners_alive (release a s)"
  unfolding release_def
  by (rule sweep_owners_alive [OF well_formed_held_update [OF assms(1)]
        owners_alive_held_update [OF assms(2)]])

lemma reachable_owners_alive: "reachable s \<Longrightarrow> owners_alive s"
proof (induction rule: reachable_core_induct)
  case init
  show ?case by (rule owners_alive_empty)
next
  case (createLeaf s v)
  then show ?case by (simp add: owners_alive_createLeaf reachable_well_formed)
next
  case (fork s v l r)
  then show ?case by (simp add: owners_alive_fork)
next
  case (replaceLeft s n x)
  then show ?case by (simp add: owners_alive_replaceLeft)
next
  case (replaceRight s n x)
  then show ?case by (simp add: owners_alive_replaceRight)
next
  case (acquire s n h)
  then show ?case using owners_alive_acquire by blast
next
  case (release s a)
  then show ?case by (simp add: owners_alive_release reachable_well_formed)
qed


lemma referenced_empty: "referenced empty_store"
  by (simp add: referenced_def live_def empty_store_def node_at_def)












section \<open>Stores that look the same\<close>

lemma same_viewD:
  assumes "same_view s t"
  shows "nxt s = nxt t" and "held s = held t"
    and "rel_option (same_node s) (node_at s a) (node_at t a)"
  using assms unfolding same_view_def by blast+

lemma same_view_live: "same_view s t \<Longrightarrow> live s a = live t a"
  using same_viewD(3) [of s t a] by (cases "node_at s a"; cases "node_at t a") (auto simp: live_def)

lemma same_view_lock: "same_view s t \<Longrightarrow> lock s w = lock t w"
  by (cases w) (auto simp: lock_def same_view_live)

lemma same_view_nodes:
  assumes "same_view s t" and "node_at s a = Some x"
  obtains y where "node_at t a = Some y" and "val x = val y" and "left x = left y"
    and "right x = right y" and "lock s (parent x) = lock s (parent y)"
  using same_viewD(3) [OF assms(1), of a] assms(2)
  by (cases "node_at t a") (auto simp: same_node_def)

lemma same_view_getLeft: "same_view s t \<Longrightarrow> getLeft s n = getLeft t n"
  using same_viewD(3) [of s t n]
  by (cases "node_at s n"; cases "node_at t n") (auto simp: getLeft_def same_node_def)

lemma same_view_getRight: "same_view s t \<Longrightarrow> getRight s n = getRight t n"
  using same_viewD(3) [of s t n]
  by (cases "node_at s n"; cases "node_at t n") (auto simp: getRight_def same_node_def)

lemma same_view_getValue: "same_view s t \<Longrightarrow> getValue s n = getValue t n"
  using same_viewD(3) [of s t n]
  by (cases "node_at s n"; cases "node_at t n") (auto simp: getValue_def same_node_def)

lemma same_view_getParent: "same_view s t \<Longrightarrow> getParent s n = getParent t n"
  using same_viewD(3) [of s t n] same_view_lock [of s t]
  by (cases "node_at s n"; cases "node_at t n") (auto simp: getParent_def same_node_def)

lemma same_view_holds: "same_view s t \<Longrightarrow> holds s a = holds t a"
  by (simp add: holds_def same_viewD(2))

lemma same_view_holds_opt: "same_view s t \<Longrightarrow> holds_opt s h = holds_opt t h"
  by (cases h) (simp_all add: same_view_holds)

lemma same_view_valid: "same_view s t \<Longrightarrow> valid s c = valid t c"
  by (cases c) (simp_all add: same_view_holds same_view_holds_opt)

lemma same_viewI:
  assumes "nxt s = nxt t" and "held s = held t"
    and "\<And>a. node_at s a = None \<Longrightarrow> node_at t a = None"
    and "\<And>a x. node_at s a = Some x \<Longrightarrow>
           \<exists>y. node_at t a = Some y \<and> val x = val y \<and> left x = left y \<and> right x = right y
             \<and> lock s (parent x) = lock s (parent y)"
  shows "same_view s t"
  unfolding same_view_def
proof (intro conjI allI)
  fix a show "rel_option (same_node s) (node_at s a) (node_at t a)"
    using assms(3,4) [of a] by (cases "node_at s a") (auto simp: same_node_def)
qed (rule assms)+

lemma lock_replaceLeft: "lock (snd (replaceLeft n x s)) w = lock s w"
  by (simp add: lock_def live_replaceLeft split: option.splits)

lemma lock_replaceRight: "lock (snd (replaceRight n x s)) w = lock s w"
  by (simp add: lock_def live_replaceRight split: option.splits)

lemma lock_createLeaf:
  "lock (snd (createLeaf v s)) w = (if w = Some (nxt s) then w else lock s w)"
  by (auto simp: lock_def live_createLeaf split: option.splits)

lemma lock_fork:
  "lock (snd (fork v l r s)) w = (if w = Some (nxt s) then w else lock s w)"
  by (auto simp: lock_def live_fork split: option.splits)

lemma lock_acquire: "lock (acquire h s) w = lock s w"
  by (simp add: lock_def live_acquire split: option.splits)

lemma lock_dealloc: "lock (dealloc a s) w = (if w = Some a then None else lock s w)"
  by (auto simp: lock_def live_dealloc split: option.splits)

lemma parent_not_fresh: "well_formed s \<Longrightarrow> node_at s a = Some x \<Longrightarrow> parent x \<noteq> Some (nxt s)"
  using well_formedD(4) [of s a x "nxt s"] by auto

lemma same_view_createLeaf:
  assumes "same_view s t" and "well_formed s" and "well_formed t"
  shows "same_view (snd (createLeaf v s)) (snd (createLeaf v t))"
proof (rule same_viewI)
  note n = same_viewD(1) [OF assms(1)]
  show "nxt (snd (createLeaf v s)) = nxt (snd (createLeaf v t))"
    by (simp add: nxt_createLeaf n)
  show "held (snd (createLeaf v s)) = held (snd (createLeaf v t))"
    by (rule ext) (simp add: held_createLeaf n same_viewD(2) [OF assms(1)])
  fix a
  show "node_at (snd (createLeaf v t)) a = None" if "node_at (snd (createLeaf v s)) a = None"
    using that same_view_live [OF assms(1), of a]
    by (auto simp: node_at_createLeaf n live_def split: if_splits)
  fix x assume x: "node_at (snd (createLeaf v s)) a = Some x"
  show "\<exists>y. node_at (snd (createLeaf v t)) a = Some y \<and> val x = val y \<and> left x = left y
          \<and> right x = right y
          \<and> lock (snd (createLeaf v s)) (parent x) = lock (snd (createLeaf v s)) (parent y)"
  proof (cases "a = nxt s")
    case True
    with x show ?thesis by (auto simp: node_at_createLeaf n)
  next
    case False
    with x have x0: "node_at s a = Some x" by (simp add: node_at_createLeaf)
    from same_view_nodes [OF assms(1) x0] obtain y where y: "node_at t a = Some y"
      "val x = val y" "left x = left y" "right x = right y"
      "lock s (parent x) = lock s (parent y)" by blast
    from parent_not_fresh [OF assms(2) x0] parent_not_fresh [OF assms(3) y(1)] y False
    show ?thesis by (simp add: node_at_createLeaf n lock_createLeaf)
  qed
qed

lemma same_view_fork:
  assumes "same_view s t" and "well_formed s" and "well_formed t"
  shows "same_view (snd (fork v l r s)) (snd (fork v l r t))"
proof (rule same_viewI)
  note n = same_viewD(1) [OF assms(1)]
  show "nxt (snd (fork v l r s)) = nxt (snd (fork v l r t))"
    by (simp add: nxt_fork n)
  show "held (snd (fork v l r s)) = held (snd (fork v l r t))"
    by (rule ext) (simp add: held_fork n same_viewD(2) [OF assms(1)])
  fix a
  show "node_at (snd (fork v l r t)) a = None" if "node_at (snd (fork v l r s)) a = None"
    using that same_view_live [OF assms(1), of a]
    by (auto simp: node_at_fork n live_def split: if_splits)
  fix x assume x: "node_at (snd (fork v l r s)) a = Some x"
  show "\<exists>y. node_at (snd (fork v l r t)) a = Some y \<and> val x = val y \<and> left x = left y
          \<and> right x = right y
          \<and> lock (snd (fork v l r s)) (parent x) = lock (snd (fork v l r s)) (parent y)"
  proof (cases "a = nxt s")
    case True
    with x show ?thesis by (auto simp: node_at_fork n)
  next
    case False
    from node_at_forkD [OF x False] obtain x0 where x0: "node_at s a = Some x0"
      "val x = val x0" "left x = left x0" "right x = right x0"
      "parent x = (if l = Some a \<or> r = Some a then Some (nxt s) else parent x0)" by blast
    from same_view_nodes [OF assms(1) x0(1)] obtain y0 where y0: "node_at t a = Some y0"
      "val x0 = val y0" "left x0 = left y0" "right x0 = right y0"
      "lock s (parent x0) = lock s (parent y0)" by blast
    from parent_not_fresh [OF assms(2) x0(1)] parent_not_fresh [OF assms(3) y0(1)] x0 y0 False
    show ?thesis by (simp add: node_at_fork n lock_fork)
  qed
qed

lemma same_view_replaceLeft:
  assumes "same_view s t"
  shows "same_view (snd (replaceLeft n x s)) (snd (replaceLeft n x t))"
proof (rule same_viewI)
  note g = same_view_getLeft [OF assms, of n]
  show "nxt (snd (replaceLeft n x s)) = nxt (snd (replaceLeft n x t))"
    by (simp add: nxt_replaceLeft same_viewD(1) [OF assms])
  show "held (snd (replaceLeft n x s)) = held (snd (replaceLeft n x t))"
    by (rule ext) (simp add: held_replaceLeft g same_viewD(2) [OF assms])
  fix a
  show "node_at (snd (replaceLeft n x t)) a = None" if "node_at (snd (replaceLeft n x s)) a = None"
    using that same_view_live [OF assms, of a] by (simp add: node_at_replaceLeft live_def)
  fix y assume y: "node_at (snd (replaceLeft n x s)) a = Some y"
  from node_at_replaceLeftD [OF y] obtain x0 where x0: "node_at s a = Some x0"
    "val y = val x0" "left y = (if a = n then x else left x0)" "right y = right x0"
    "parent y = (if getLeft s n = Some a then None
                 else if x = Some a then Some n else parent x0)" by blast
  from same_view_nodes [OF assms x0(1)] obtain y0 where y0: "node_at t a = Some y0"
    "val x0 = val y0" "left x0 = left y0" "right x0 = right y0"
    "lock s (parent x0) = lock s (parent y0)" by blast
  from x0 y0 g
  show "\<exists>z. node_at (snd (replaceLeft n x t)) a = Some z \<and> val y = val z \<and> left y = left z
          \<and> right y = right z
          \<and> lock (snd (replaceLeft n x s)) (parent y) = lock (snd (replaceLeft n x s)) (parent z)"
    by (simp add: node_at_replaceLeft lock_replaceLeft)
qed

lemma same_view_replaceRight:
  assumes "same_view s t"
  shows "same_view (snd (replaceRight n x s)) (snd (replaceRight n x t))"
proof (rule same_viewI)
  note g = same_view_getRight [OF assms, of n]
  show "nxt (snd (replaceRight n x s)) = nxt (snd (replaceRight n x t))"
    by (simp add: nxt_replaceRight same_viewD(1) [OF assms])
  show "held (snd (replaceRight n x s)) = held (snd (replaceRight n x t))"
    by (rule ext) (simp add: held_replaceRight g same_viewD(2) [OF assms])
  fix a
  show "node_at (snd (replaceRight n x t)) a = None"
    if "node_at (snd (replaceRight n x s)) a = None"
    using that same_view_live [OF assms, of a] by (simp add: node_at_replaceRight live_def)
  fix y assume y: "node_at (snd (replaceRight n x s)) a = Some y"
  from node_at_replaceRightD [OF y] obtain x0 where x0: "node_at s a = Some x0"
    "val y = val x0" "left y = left x0" "right y = (if a = n then x else right x0)"
    "parent y = (if getRight s n = Some a then None
                 else if x = Some a then Some n else parent x0)" by blast
  from same_view_nodes [OF assms x0(1)] obtain y0 where y0: "node_at t a = Some y0"
    "val x0 = val y0" "left x0 = left y0" "right x0 = right y0"
    "lock s (parent x0) = lock s (parent y0)" by blast
  from x0 y0 g
  show "\<exists>z. node_at (snd (replaceRight n x t)) a = Some z \<and> val y = val z \<and> left y = left z
          \<and> right y = right z
          \<and> lock (snd (replaceRight n x s)) (parent y)
              = lock (snd (replaceRight n x s)) (parent z)"
    by (simp add: node_at_replaceRight lock_replaceRight)
qed

lemma same_view_acquire:
  assumes "same_view s t"
  shows "same_view (acquire h s) (acquire h t)"
proof (rule same_viewI)
  show "nxt (acquire h s) = nxt (acquire h t)"
    by (simp add: nxt_acquire same_viewD(1) [OF assms])
  show "held (acquire h s) = held (acquire h t)"
    by (rule ext) (simp add: held_acquire same_viewD(2) [OF assms])
  fix a
  show "node_at (acquire h t) a = None" if "node_at (acquire h s) a = None"
    using that same_view_live [OF assms, of a] by (simp add: node_at_acquire live_def)
  fix x assume "node_at (acquire h s) a = Some x"
  then have x: "node_at s a = Some x" by (simp add: node_at_acquire)
  from same_view_nodes [OF assms x]
  show "\<exists>y. node_at (acquire h t) a = Some y \<and> val x = val y \<and> left x = left y
          \<and> right x = right y \<and> lock (acquire h s) (parent x) = lock (acquire h s) (parent y)"
    by (auto simp: node_at_acquire lock_acquire)
qed

lemma same_view_slot_refs:
  assumes "same_view s t"
  shows "slot_refs s a = slot_refs t a"
proof
  fix p show "slot_refs s a p = slot_refs t a p"
    using same_viewD(3) [OF assms, of p]
    by (cases "node_at s p"; cases "node_at t p") (auto simp: slot_refs_def same_node_def)
qed

lemma same_view_use_count: "same_view s t \<Longrightarrow> use_count s a = use_count t a"
  by (simp add: use_count_def incoming_def same_viewD(1,2) same_view_slot_refs [of s t a])

lemma same_view_dealloc:
  assumes "same_view s t"
  shows "same_view (dealloc a s) (dealloc a t)"
proof (rule same_viewI)
  show "nxt (dealloc a s) = nxt (dealloc a t)"
    by (simp add: nxt_dealloc same_viewD(1) [OF assms])
  show "held (dealloc a s) = held (dealloc a t)"
    by (simp add: held_dealloc same_viewD(2) [OF assms])
  fix b
  show "node_at (dealloc a t) b = None" if "node_at (dealloc a s) b = None"
    using that same_view_live [OF assms, of b]
    by (auto simp: node_at_dealloc live_def split: if_splits)
  fix x assume "node_at (dealloc a s) b = Some x"
  then have b: "b \<noteq> a" and x: "node_at s b = Some x"
    by (auto simp: node_at_dealloc split: if_splits)
  from same_view_nodes [OF assms x] obtain y where y: "node_at t b = Some y"
    "val x = val y" "left x = left y" "right x = right y"
    "lock s (parent x) = lock s (parent y)" by blast
  have "lock (dealloc a s) (parent x) = lock (dealloc a s) (parent y)"
  proof (cases "parent x = Some a \<or> parent y = Some a")
    case True
    with y(5) show ?thesis
      by (cases "parent x"; cases "parent y")
        (auto simp: lock_def live_dealloc split: if_splits)
  next
    case False
    with y(5) show ?thesis by (simp add: lock_dealloc)
  qed
  with y b
  show "\<exists>y. node_at (dealloc a t) b = Some y \<and> val x = val y \<and> left x = left y
          \<and> right x = right y \<and> lock (dealloc a s) (parent x) = lock (dealloc a s) (parent y)"
    by (simp add: node_at_dealloc)
qed

lemma same_view_sweep: "same_view s t \<Longrightarrow> same_view (sweep as s) (sweep as t)"
proof (induction as s arbitrary: t rule: sweep.induct)
  case (1 s)
  then show ?case by simp
next
  case (2 a as s)
  note sv = \<open>same_view s t\<close>
  show ?case
  proof (cases "node_at s a")
    case None
    with same_view_live [OF sv, of a] have "node_at t a = None" by (simp add: live_def)
    with 2(1) [OF None sv] None show ?thesis by (simp del: sweep.simps add: sweep.simps(2) [of a as])
  next
    case (Some x)
    from same_view_nodes [OF sv Some] obtain y where y: "node_at t a = Some y"
      "left x = left y" "right x = right y" by blast
    show ?thesis
    proof (cases "use_count s a = 0")
      case True
      with same_view_use_count [OF sv, of a] have "use_count t a = 0" by simp
      with 2(2) [OF Some True same_view_dealloc [OF sv]] Some True y show ?thesis by simp
    next
      case False
      with same_view_use_count [OF sv, of a] have "use_count t a \<noteq> 0" by simp
      with 2(3) [OF Some False sv] Some False y show ?thesis by simp
    qed
  qed
qed

lemma same_view_held_update:
  assumes "same_view s t"
  shows "same_view (s\<lparr>held := (held s)(a := held s a - 1)\<rparr>) (t\<lparr>held := (held t)(a := held t a - 1)\<rparr>)"
proof -
  have n: "node_at (u\<lparr>held := h\<rparr>) = node_at u" for u :: "'a store" and h
    by (rule ext) (simp add: node_at_def)
  have l: "lock (u\<lparr>held := h\<rparr>) = lock u" for u :: "'a store" and h
  proof
    fix w show "lock (u\<lparr>held := h\<rparr>) w = lock u w"
      by (cases w) (simp_all add: lock_def live_def n)
  qed
  have "same_node (u\<lparr>held := h\<rparr>) = same_node u" for u :: "'a store" and h
    by (intro ext) (simp add: same_node_def l)
  with assms show ?thesis
    unfolding same_view_def by (simp add: n)
qed

lemma same_view_release: "same_view s t \<Longrightarrow> same_view (release a s) (release a t)"
  unfolding release_def by (intro same_view_sweep same_view_held_update)

lemma well_formed_exec:
  assumes "well_formed s" and "valid s c"
  shows "well_formed (exec c s)"
proof (cases c)
  case (ReplaceLeftWithLeaf n v)
  let ?s1 = "snd (createLeaf v s)"
  have "well_formed ?s1" by (rule well_formed_createLeaf [OF assms(1)])
  moreover have "holds ?s1 n" "holds_opt ?s1 (Some (nxt s))"
    using assms(2) ReplaceLeftWithLeaf by (simp_all add: holds_createLeaf)
  ultimately have "well_formed (snd (replaceLeft n (Some (nxt s)) ?s1))"
    by (rule well_formed_replaceLeft)
  then show ?thesis
    unfolding ReplaceLeftWithLeaf exec_ReplaceLeftWithLeaf by (simp add: well_formed_release)
next
  case (ReplaceRightWithLeaf n v)
  let ?s1 = "snd (createLeaf v s)"
  have "well_formed ?s1" by (rule well_formed_createLeaf [OF assms(1)])
  moreover have "holds ?s1 n" "holds_opt ?s1 (Some (nxt s))"
    using assms(2) ReplaceRightWithLeaf by (simp_all add: holds_createLeaf)
  ultimately have "well_formed (snd (replaceRight n (Some (nxt s)) ?s1))"
    by (rule well_formed_replaceRight)
  then show ?thesis
    unfolding ReplaceRightWithLeaf exec_ReplaceRightWithLeaf by (simp add: well_formed_release)
next
  case (GetLeft n)
  with assms show ?thesis using well_formed_acquire [of s "getLeft s n" n] by simp
next
  case (GetRight n)
  with assms show ?thesis using well_formed_acquire [of s "getRight s n" n] by simp
next
  case (GetParent n)
  with assms show ?thesis using well_formed_acquire [of s "getParent s n" n] by simp
qed (use assms in \<open>simp_all add: well_formed_createLeaf well_formed_fork well_formed_replaceLeft
      well_formed_replaceRight well_formed_release removeLeft_def removeRight_def\<close>)

lemma same_view_exec:
  assumes "same_view s t" and "well_formed s" and "well_formed t"
  shows "same_view (exec c s) (exec c t)"
proof (cases c)
  case (ReplaceLeftWithLeaf n v)
  have "same_view (snd (replaceLeft n (Some (nxt s)) (snd (createLeaf v s))))
                  (snd (replaceLeft n (Some (nxt s)) (snd (createLeaf v t))))"
    by (intro same_view_replaceLeft same_view_createLeaf assms)
  then show ?thesis
    unfolding ReplaceLeftWithLeaf exec_ReplaceLeftWithLeaf
    by (simp add: same_view_release same_viewD(1) [OF assms(1), symmetric])
next
  case (ReplaceRightWithLeaf n v)
  have "same_view (snd (replaceRight n (Some (nxt s)) (snd (createLeaf v s))))
                  (snd (replaceRight n (Some (nxt s)) (snd (createLeaf v t))))"
    by (intro same_view_replaceRight same_view_createLeaf assms)
  then show ?thesis
    unfolding ReplaceRightWithLeaf exec_ReplaceRightWithLeaf
    by (simp add: same_view_release same_viewD(1) [OF assms(1), symmetric])
next
  case (GetLeft n)
  then show ?thesis
    using same_view_acquire [OF assms(1)] by (simp add: same_view_getLeft [OF assms(1), symmetric])
next
  case (GetRight n)
  then show ?thesis
    using same_view_acquire [OF assms(1)] by (simp add: same_view_getRight [OF assms(1), symmetric])
next
  case (GetParent n)
  then show ?thesis
    using same_view_acquire [OF assms(1)]
    by (simp add: same_view_getParent [OF assms(1), symmetric])
qed (use assms in \<open>simp_all add: same_view_createLeaf same_view_fork same_view_replaceLeft
      same_view_replaceRight same_view_release removeLeft_def removeRight_def\<close>)

lemma same_view_run:
  assumes "same_view s t" and "well_formed s" and "well_formed t" and "run cs s = Some s'"
  shows "\<exists>t'. run cs t = Some t' \<and> same_view s' t'"
  using assms
proof (induction cs arbitrary: s t)
  case Nil
  then show ?case by simp
next
  case (Cons c cs)
  from Cons.prems(4) have v: "valid s c" and r: "run cs (exec c s) = Some s'"
    by (auto split: if_splits)
  from v same_view_valid [OF Cons.prems(1), of c] have v': "valid t c" by simp
  from Cons.IH [OF same_view_exec [OF Cons.prems(1-3)] well_formed_exec [OF Cons.prems(2) v]
      well_formed_exec [OF Cons.prems(3) v'] r] v'
  show ?case by simp
qed

lemma getParent_None_iff:
  "node_at s n = Some x \<Longrightarrow>
     getParent s n = None \<longleftrightarrow> parent x = None \<or> (\<exists>p. parent x = Some p \<and> \<not> live s p)"
  by (cases "parent x") (auto simp: getParent_def lock_def)

lemma same_view_dangling:
  assumes "node_at s n = Some x" and "parent x = None" and "\<not> live s p"
  shows "same_view s (setParent (Some n) (Some p) s)"
proof (rule same_viewI)
  fix a y assume y: "node_at s a = Some y"
  show "\<exists>z. node_at (setParent (Some n) (Some p) s) a = Some z \<and> val y = val z
          \<and> left y = left z \<and> right y = right z \<and> lock s (parent y) = lock s (parent z)"
    using y assms by (auto simp: node_at_setParent lock_def)
qed (simp_all add: nxt_setParent held_setParent node_at_setParent)

lemma fst_replaceLeftWithLeaf:
  "fst (replaceLeftWithLeaf n v s) = getLeft (snd (createLeaf v s)) n"
  by (simp add: replaceLeftWithLeaf_def split_beta fst_replaceLeft)

lemma fst_replaceRightWithLeaf:
  "fst (replaceRightWithLeaf n v s) = getRight (snd (createLeaf v s)) n"
  by (simp add: replaceRightWithLeaf_def split_beta fst_replaceRight)

lemma orphaned_eq:
  "orphaned = \<lparr>heap = fmupd 0 \<lparr>val = 1, left = None, right = None, parent = Some 1\<rparr> fmempty,
               nxt = 2, held = (\<lambda>_. 0)(0 := 1)\<rparr>"
  unfolding orphaned_def exec.simps
  apply (simp add: two_nodes_eq release_def use_count_def incoming_def slot_refs_def node_at_def
        numeral_2_eq_2 dealloc_def)
  apply (intro conjI fmap_ext ext)
   apply simp_all
  done

lemma detached_eq:
  "detached = \<lparr>heap = fmupd 0 \<lparr>val = 1, left = None, right = None, parent = None\<rparr> fmempty,
               nxt = 2, held = (\<lambda>_. 0)(0 := 1)\<rparr>"
  unfolding detached_def exec.simps
  apply (simp add: two_nodes_eq release_def use_count_def incoming_def slot_refs_def node_at_def
        numeral_2_eq_2 dealloc_def op_defs Let_def)
  apply (intro conjI fmap_ext ext)
   apply simp_all
  done

lemma reachable_orphaned: "reachable orphaned"
  unfolding orphaned_def
  by (rule reachable.step [OF reachable_two_nodes]) (simp add: two_nodes_eq holds_def)

lemma reachable_detached: "reachable detached"
proof -
  have 1: "reachable (exec (RemoveLeft 1) two_nodes)"
    by (rule reachable.step [OF reachable_two_nodes]) (simp add: two_nodes_eq holds_def)
  have 2: "reachable (exec (Release 1) (exec (RemoveLeft 1) two_nodes))"
    by (rule reachable.step [OF 1])
      (simp add: two_nodes_eq holds_def removeLeft_def held_replaceLeft)
  show ?thesis
    unfolding detached_def
    by (rule reachable.step [OF 2])
      (simp add: two_nodes_eq holds_def removeLeft_def held_replaceLeft held_release)
qed

section \<open>Stores without cycles of strong links\<close>













lemma edges_fresh_target: "well_formed s \<Longrightarrow> (q, nxt s) \<notin> edges s"
  using has_child_of_fresh [of s q] by (simp add: edges_def)







section \<open>Link consistency\<close>

text \<open>
  C1, as the code has it. After every sequence of public operations, a back-reference
  that resolves names a node that holds the referring node in its left or right slot; in
  particular every node \<open>n\<close> for which \<open>n.getParent()\<close> returns a handle satisfies
  \<open>n.getParent().getLeft() == n\<close> or \<open>n.getParent().getRight() == n\<close>. The converse
  (a strong link from \<open>p\<close> to \<open>c\<close> means that the back-reference of \<open>c\<close>
  resolves to \<open>p\<close>) holds after every sequence of operations in which each node handed
  to \<^verbatim>\<open>fork\<close> or \<^verbatim>\<open>replace*\<close> as a new child was held in no child slot at the time
  of the call.
\<close>

theorem link_consistency:
  "(reachable s \<longrightarrow>
      (\<forall>p c. getParent s c = Some p \<longrightarrow> getLeft s p = Some c \<or> getRight s p = Some c) \<and>
      (\<forall>n. getParent s n \<noteq> None \<longrightarrow>
         (\<exists>p. getParent s n = Some p \<and> (getLeft s p = Some n \<or> getRight s p = Some n)))) \<and>
   (reachable_tidy s \<longrightarrow>
      (\<forall>p c. (getLeft s p = Some c \<or> getRight s p = Some c) = (getParent s c = Some p)))"
proof (intro conjI impI allI)
  fix p c assume "reachable s" and "getParent s c = Some p"
  then show "getLeft s p = Some c \<or> getRight s p = Some c"
    using reachable_parent_is_owner [of s] by (simp add: parent_is_owner_def)
next
  fix n assume r: "reachable s" and "getParent s n \<noteq> None"
  then obtain p where p: "getParent s n = Some p" by blast
  with reachable_parent_is_owner [OF r]
  show "\<exists>p. getParent s n = Some p \<and> (getLeft s p = Some n \<or> getRight s p = Some n)"
    by (simp add: parent_is_owner_def)
next
  fix p c assume t: "reachable_tidy s"
  show "(getLeft s p = Some c \<or> getRight s p = Some c) = (getParent s c = Some p)"
  proof
    assume h: "getLeft s p = Some c \<or> getRight s p = Some c"
    then have hc: "has_child s p c" by (simp add: has_child_def)
    from owners_aliveD(2) [OF reachable_owners_alive [OF reachable_tidy_reachable [OF t]] hc]
    obtain y where y: "node_at s c = Some y" by (auto simp: live_def)
    from tidy_invD(3) [OF reachable_tidy_inv [OF t] hc y] have "parent y = Some p" .
    moreover from h have "live s p"
      by (auto simp: getLeft_def getRight_def live_def split: option.splits)
    ultimately show "getParent s c = Some p" using y by (simp add: getParent_def lock_def)
  next
    assume "getParent s c = Some p"
    with reachable_parent_is_owner [OF reachable_tidy_reachable [OF t]]
    show "getLeft s p = Some c \<or> getRight s p = Some c"
      by (simp add: parent_is_owner_def)
  qed
qed

theorem link_consistency_witness:
  "reachable two_nodes \<and> reachable_tidy two_nodes \<and> live two_nodes 0
   \<and> getParent two_nodes 0 = Some 1 \<and> getLeft two_nodes 1 = Some 0"
proof -
  note t = reachable_tidy_two_nodes
  have l: "live two_nodes 0" and g: "getLeft two_nodes 1 = Some 0"
    by (simp_all add: two_nodes_eq live_def getLeft_def node_at_def)
  from link_consistency [of two_nodes] t
  have "(getLeft two_nodes 1 = Some 0 \<or> getRight two_nodes 1 = Some 0)
          = (getParent two_nodes 0 = Some 1)"
    by blast
  with g have "getParent two_nodes 0 = Some 1" by simp
  with reachable_two_nodes t l g show ?thesis by simp
qed

text \<open>
  C1, as the specification states it, fails: a leaf that is the left child of one node is
  passed to \<open>replaceLeft\<close> of another node. Afterwards the first node still holds the
  leaf in its left slot, and the back-reference of the leaf resolves to the second node.
\<close>

theorem link_consistency_counterexample:
  "reachable stolen_leaf \<and> live stolen_leaf 1 \<and> live stolen_leaf 0
   \<and> getLeft stolen_leaf 1 = Some 0 \<and> getParent stolen_leaf 0 = Some 2
   \<and> \<not> links_consistent stolen_leaf"
proof -
  have r: "reachable stolen_leaf"
    unfolding stolen_leaf_def
    by (rule reachable.step [OF reachable_three_nodes]) (simp add: three_nodes_eq holds_def)
  have f: "live stolen_leaf 1" "live stolen_leaf 0" "getLeft stolen_leaf 1 = Some 0"
    "getParent stolen_leaf 0 = Some 2"
    by (simp_all add: stolen_leaf_eq three_nodes_eq live_def node_at_def getLeft_def
        getParent_def lock_def)
  then have "(getLeft stolen_leaf 1 = Some 0 \<or> getRight stolen_leaf 1 = Some 0)
      \<noteq> (getParent stolen_leaf 0 = Some 1)" by simp
  with f(1,2) have "\<not> links_consistent stolen_leaf"
    unfolding links_consistent_def by blast
  with r f show ?thesis by simp
qed

section \<open>What a replace does\<close>

text \<open>
  C2. \<open>n.replaceLeft(x)\<close> performs the three steps of the specification in their
  order (set the back-reference of \<open>x\<close> if present, clear the back-reference of the
  current left child if any, install \<open>x\<close>), returns the child that the left slot held
  before the call, and leaves \<open>n.getLeft() == x\<close>; \<open>replaceRight\<close> is the same
  operation on the mirror image of the store.
\<close>

theorem replaceLeft_steps_in_order:
  "replaceLeft n x s = replaceLeft_steps n x s
   \<and> fst (replaceLeft n x s) = getLeft s n
   \<and> (live s n \<longrightarrow> getLeft (snd (replaceLeft n x s)) n = x)
   \<and> replaceRight n x s
       = (fst (replaceLeft n x (mirror s)), mirror (snd (replaceLeft n x (mirror s))))"
proof (intro conjI impI)
  show "replaceLeft n x s = replaceLeft_steps n x s"
    by (simp add: replaceLeft_def replaceLeft_steps_def setParent_def Let_def getLeft_setParent
        getLeft_setParent [unfolded setParent_def])
  show "fst (replaceLeft n x s) = getLeft s n" by (rule fst_replaceLeft)
  show "getLeft (snd (replaceLeft n x s)) n = x" if "live s n"
    using that by (simp add: getLeft_replaceLeft)
  show "replaceRight n x s
       = (fst (replaceLeft n x (mirror s)), mirror (snd (replaceLeft n x (mirror s))))"
    by (rule replaceRight_mirror)
qed

theorem replaceLeft_steps_in_order_witness:
  "live three_nodes 1
   \<and> fst (replaceLeft 1 (Some 2) three_nodes) = Some 0
   \<and> getLeft (snd (replaceLeft 1 (Some 2) three_nodes)) 1 = Some 2
   \<and> getParent (snd (replaceLeft 1 (Some 2) three_nodes)) 2 = Some 1
   \<and> getParent (snd (replaceLeft 1 (Some 2) three_nodes)) 0 = None"
proof -
  have l: "live three_nodes 1" by (simp add: three_nodes_eq live_def node_at_def)
  have g: "getLeft three_nodes 1 = Some 0" by (simp add: three_nodes_eq getLeft_def node_at_def)
  have p: "getParent (snd (replaceLeft 1 (Some 2) three_nodes)) 2 = Some 1"
    "getParent (snd (replaceLeft 1 (Some 2) three_nodes)) 0 = None"
    by (simp_all add: three_nodes_eq op_defs Let_def)
  from replaceLeft_steps_in_order [of 1 "Some 2" three_nodes]
  have "fst (replaceLeft 1 (Some 2) three_nodes) = getLeft three_nodes 1"
    and "live three_nodes 1 \<longrightarrow> getLeft (snd (replaceLeft 1 (Some 2) three_nodes)) 1 = Some 2"
    by blast+
  with l g p show ?thesis by simp
qed

section \<open>One strong incoming link\<close>

text \<open>
  C3, as the code has it. When every node that is handed to \<^verbatim>\<open>fork\<close> or
  \<^verbatim>\<open>replace*\<close> as a new child is held in no child slot at the time of the call (and
  \<^verbatim>\<open>fork\<close> is not given the same node twice), every node has at most one strong
  incoming link in every reachable store. The operations do not sever a previous
  attachment themselves: \<^verbatim>\<open>fork\<close> changes no slot of an existing node, and
  \<^verbatim>\<open>replaceLeft\<close> and \<^verbatim>\<open>replaceRight\<close> on \<open>n\<close> change no slot of any other node.
\<close>

theorem single_owner_when_tidy:
  "(reachable_tidy s \<longrightarrow> (\<forall>c. incoming s c \<le> 1)) \<and>
   (\<forall>q. q \<noteq> nxt s \<longrightarrow> getLeft (snd (fork v l r s)) q = getLeft s q
                    \<and> getRight (snd (fork v l r s)) q = getRight s q) \<and>
   (\<forall>q. q \<noteq> n \<longrightarrow> getLeft (snd (replaceLeft n x s)) q = getLeft s q
                \<and> getRight (snd (replaceLeft n x s)) q = getRight s q
                \<and> getLeft (snd (replaceRight n x s)) q = getLeft s q
                \<and> getRight (snd (replaceRight n x s)) q = getRight s q)"
proof (intro conjI impI allI)
  fix c assume t: "reachable_tidy s"
  then have "well_formed s" by (simp add: reachable_tidy_reachable reachable_well_formed)
  from single_owner_iff [OF this] reachable_tidy_inv [OF t] have "single_owner s"
    unfolding tidy_inv_def by blast
  then show "incoming s c \<le> 1" by (simp add: single_owner_def)
qed (simp_all add: getLeft_fork getRight_fork getLeft_replaceLeft getRight_replaceLeft
      getLeft_replaceRight getRight_replaceRight)

theorem single_owner_when_tidy_witness:
  "reachable_tidy two_nodes \<and> incoming two_nodes 0 = 1
   \<and> getLeft (snd (replaceLeft 0 None two_nodes)) 1 = Some 0"
proof -
  have i: "incoming two_nodes 0 = 1"
    by (simp add: two_nodes_eq incoming_def slot_refs_def node_at_def numeral_2_eq_2)
  have g: "getLeft two_nodes 1 = Some 0" by (simp add: two_nodes_eq getLeft_def node_at_def)
  from single_owner_when_tidy [of two_nodes 0 None None 0 None] reachable_tidy_two_nodes
  have "incoming two_nodes 0 \<le> 1
      \<and> getLeft (snd (replaceLeft 0 None two_nodes)) 1 = getLeft two_nodes 1"
    by simp
  with reachable_tidy_two_nodes i g show ?thesis by simp
qed

text \<open>
  C3, as the specification states it, fails: a leaf that is the left child of one root is
  passed to \<^verbatim>\<open>fork\<close> again; afterwards both roots hold it in their left slot, so it
  has two strong incoming links and its first attachment has not been severed.
\<close>

theorem single_owner_counterexample:
  "reachable shared_leaf \<and> getLeft shared_leaf 1 = Some 0 \<and> getLeft shared_leaf 2 = Some 0
   \<and> incoming shared_leaf 0 = 2 \<and> \<not> single_owner shared_leaf"
proof -
  have r: "reachable shared_leaf"
    unfolding shared_leaf_def
    by (rule reachable.step [OF reachable_two_nodes]) (simp add: two_nodes_eq holds_def)
  have i: "incoming shared_leaf 0 = 2"
    by (simp add: shared_leaf_eq two_nodes_eq incoming_def slot_refs_def node_at_def
        numeral_3_eq_3)
  then have "\<not> single_owner shared_leaf"
    unfolding single_owner_def by (metis numeral_le_one_iff semiring_norm(69))
  moreover have "getLeft shared_leaf 1 = Some 0" "getLeft shared_leaf 2 = Some 0"
    by (simp_all add: shared_leaf_eq two_nodes_eq getLeft_def node_at_def)
  ultimately show ?thesis using r i by simp
qed

section \<open>Forking\<close>

text \<open>
  C4. From any reachable store, after \<open>leafA = createLeaf(va)\<close>,
  \<open>leafB = createLeaf(vb)\<close> and \<open>root = fork(vr, leafA, leafB)\<close>: the left child of
  the root is \<open>leafA\<close> with value \<open>va\<close>, its right child is \<open>leafB\<close> with value
  \<open>vb\<close>, the parent of both leaves is the root with value \<open>vr\<close>, and the root has no
  parent: \<open>root.getParent()\<close> returns the absent value. In general \<open>fork\<close> with
  children the caller holds installs both and sets the back-reference of each to the new
  node in the same operation. The claim words the last part of the scenario as
  \<open>root.hasParent() == false\<close>; \<^verbatim>\<open>hasParent\<close> cannot be instantiated, so what is
  proved of the code is the statement about \<open>getParent\<close>.
\<close>

theorem fork_installs_children:
  assumes "reachable s"
  shows "(case createLeaf va s of (a, s1) \<Rightarrow>
          case createLeaf vb s1 of (b, s2) \<Rightarrow>
          case fork vr (Some a) (Some b) s2 of (root, s3) \<Rightarrow>
            getLeft s3 root = Some a \<and> getValue s3 a = Some va
            \<and> getRight s3 root = Some b \<and> getValue s3 b = Some vb
            \<and> getParent s3 a = Some root \<and> getParent s3 b = Some root
            \<and> getValue s3 root = Some vr \<and> getParent s3 root = None)
       \<and> (\<forall>l r. holds_opt s l \<and> holds_opt s r \<longrightarrow>
            (case fork v l r s of (p, s') \<Rightarrow>
               getLeft s' p = l \<and> getRight s' p = r \<and> getValue s' p = Some v
               \<and> getParent s' p = None
               \<and> (\<forall>c. l = Some c \<or> r = Some c \<longrightarrow> getParent s' c = Some p)))"
proof (intro conjI allI impI)
  have wf: "well_formed s" by (rule reachable_well_formed [OF assms])
  let ?a = "nxt s" and ?s1 = "snd (createLeaf va s)"
  let ?b = "Suc (nxt s)" and ?s2 = "snd (createLeaf vb (snd (createLeaf va s)))"
  let ?r = "Suc (Suc (nxt s))" and ?s3 = "snd (fork vr (Some (nxt s)) (Some (Suc (nxt s)))
      (snd (createLeaf vb (snd (createLeaf va s)))))"
  have n2: "nxt ?s2 = ?r" by (simp add: nxt_createLeaf)
  have r: "node_at ?s3 ?r = Some \<lparr>val = vr, left = Some ?a, right = Some ?b, parent = None\<rparr>"
    by (simp add: node_at_fork n2)
  have a: "node_at ?s3 ?a = Some \<lparr>val = va, left = None, right = None, parent = Some ?r\<rparr>"
    by (simp add: node_at_fork n2 node_at_createLeaf nxt_createLeaf)
  have b: "node_at ?s3 ?b = Some \<lparr>val = vb, left = None, right = None, parent = Some ?r\<rparr>"
    by (simp add: node_at_fork n2 node_at_createLeaf nxt_createLeaf)
  show "case createLeaf va s of (a, s1) \<Rightarrow>
          case createLeaf vb s1 of (b, s2) \<Rightarrow>
          case fork vr (Some a) (Some b) s2 of (root, s3) \<Rightarrow>
            getLeft s3 root = Some a \<and> getValue s3 a = Some va
            \<and> getRight s3 root = Some b \<and> getValue s3 b = Some vb
            \<and> getParent s3 a = Some root \<and> getParent s3 b = Some root
            \<and> getValue s3 root = Some vr \<and> getParent s3 root = None"
    using r a b
    by (simp add: split_beta fst_createLeaf fst_fork nxt_createLeaf getLeft_def getRight_def
        getValue_def getParent_def lock_def live_def)
next
  fix l r assume h: "holds_opt s l \<and> holds_opt s r"
  have wf: "well_formed s" by (rule reachable_well_formed [OF assms])
  have oa: "owners_alive s" by (rule reachable_owners_alive [OF assms])
  let ?s' = "snd (fork v l r s)"
  have lr: "l \<noteq> Some (nxt s)" "r \<noteq> Some (nxt s)"
    using h holds_opt_below [OF wf, of l "nxt s"] holds_opt_below [OF wf, of r "nxt s"] by auto
  have p: "node_at ?s' (nxt s) = Some \<lparr>val = v, left = l, right = r, parent = None\<rparr>"
    using lr by (simp add: node_at_fork)
  have c: "getParent ?s' c = Some (nxt s)" if "l = Some c \<or> r = Some c" for c
  proof -
    from that h holds_opt_live [OF oa, of l c] holds_opt_live [OF oa, of r c]
    have "live s c" by auto
    moreover from that lr have "c \<noteq> nxt s" by auto
    ultimately show ?thesis using that
      by (auto simp: getParent_def node_at_fork lock_def live_def)
  qed
  show "case fork v l r s of (p, s') \<Rightarrow>
               getLeft s' p = l \<and> getRight s' p = r \<and> getValue s' p = Some v
               \<and> getParent s' p = None
               \<and> (\<forall>c. l = Some c \<or> r = Some c \<longrightarrow> getParent s' c = Some p)"
    unfolding split_beta fst_fork
  proof (intro conjI allI impI)
    fix c assume "l = Some c \<or> r = Some c"
    then show "getParent ?s' c = Some (nxt s)" by (rule c)
  qed (simp_all add: p getLeft_def getRight_def getValue_def getParent_def
        lock_def)
qed

theorem fork_installs_children_witness:
  "reachable (empty_store :: nat store)
   \<and> (case createLeaf 1 (empty_store :: nat store) of (a, s1) \<Rightarrow>
       case createLeaf 2 s1 of (b, s2) \<Rightarrow>
       case fork 0 (Some a) (Some b) s2 of (root, s3) \<Rightarrow>
         map_option (getValue s3) (getLeft s3 root) = Some (Some 1)
         \<and> map_option (getValue s3) (getRight s3 root) = Some (Some 2)
         \<and> map_option (getValue s3) (getParent s3 a) = Some (Some 0)
         \<and> getParent s3 root = None)"
proof -
  from fork_installs_children [OF reachable.init, where va = "1::nat" and vb = 2 and vr = 0 and v = 0]
  have "case createLeaf 1 (empty_store :: nat store) of (a, s1) \<Rightarrow>
          case createLeaf 2 s1 of (b, s2) \<Rightarrow>
          case fork 0 (Some a) (Some b) s2 of (root, s3) \<Rightarrow>
            getLeft s3 root = Some a \<and> getValue s3 a = Some 1
            \<and> getRight s3 root = Some b \<and> getValue s3 b = Some 2
            \<and> getParent s3 a = Some root \<and> getParent s3 b = Some root
            \<and> getValue s3 root = Some 0 \<and> getParent s3 root = None"
    by (rule conjunct1)
  then show ?thesis by (simp add: split_beta reachable.init)
qed

section \<open>Replacing and putting back\<close>

text \<open>
  C5. Round trip: for a node \<open>n\<close> and a handle \<open>x\<close>, \<open>old = n.replaceLeft(x)\<close>
  followed by \<open>n.replaceLeft(old)\<close> restores \<open>n.getLeft() == old\<close>; the second call
  returns \<open>x\<close>, and \<open>x\<close> has no parent after it: \<open>x.getParent()\<close> returns the
  absent value (the claim words this as \<open>x.hasParent()\<close> being false; \<^verbatim>\<open>hasParent\<close>
  cannot be instantiated, so it is proved of \<open>getParent\<close>). This holds for every live \<open>n\<close>
  and \<open>x\<close>, so in particular when \<open>n\<close> has a left child and \<open>x\<close> is detached.
\<close>

theorem replaceLeft_round_trip:
  assumes "live s n" and "live s x"
  shows "(let (old, s1) = replaceLeft n (Some x) s;
              (back, s2) = replaceLeft n old s1
          in old = getLeft s n \<and> getLeft s2 n = old \<and> back = Some x
           \<and> live s2 x \<and> getParent s2 x = None)"
  using assms
  by (auto simp: split_beta Let_def fst_replaceLeft getLeft_def getParent_def
      node_at_replaceLeft live_def lock_def split: option.splits)

theorem replaceLeft_round_trip_witness:
  "live three_nodes 1 \<and> live three_nodes 2 \<and> getLeft three_nodes 1 = Some 0
   \<and> getParent three_nodes 2 = None
   \<and> (let (old, s1) = replaceLeft 1 (Some 2) three_nodes;
            (back, s2) = replaceLeft 1 old s1
        in old = Some 0 \<and> getLeft s2 1 = Some 0 \<and> back = Some 2 \<and> getParent s2 2 = None)"
proof -
  have h: "live three_nodes 1" "live three_nodes 2"
    by (simp_all add: three_nodes_eq live_def node_at_def)
  have g: "getLeft three_nodes 1 = Some 0" "getParent three_nodes 2 = None"
    by (simp_all add: three_nodes_eq getLeft_def getParent_def lock_def node_at_def)
  from replaceLeft_round_trip [OF h] h g show ?thesis
    by (simp add: split_beta Let_def fst_replaceLeft)
qed

section \<open>No parent\<close>

text \<open>
  C6, the part that the code can run. \<open>getParent()\<close> returns the absent value exactly
  when the back-reference of the node is empty (the node is detached) or names an object
  that has been deallocated; otherwise it returns the node that the back-reference names.
  The two
  cases cannot be told apart: a store in which an empty back-reference is replaced by one
  that names a deallocated object looks the same, stores that look the same give the same
  results for every accessor and every operation, and they still look the same after any
  sequence of calls of the public interface (with every call possible in the one exactly
  when it is possible in the other). The claim's first part, that \<open>hasParent()\<close> is
  true exactly when \<open>getParent()\<close> returns a handle, is not a statement about this
  code: \<^verbatim>\<open>hasParent\<close> is \<^verbatim>\<open>bool(parent)\<close> on a \<^verbatim>\<open>std::weak_ptr\<close> and cannot be
  instantiated, so there is no value it returns.
\<close>

theorem absent_parent_indistinguishable:
  "(\<forall>x. node_at s n = Some x \<longrightarrow>
          (getParent s n = None \<longleftrightarrow> parent x = None \<or> (\<exists>p. parent x = Some p \<and> \<not> live s p))
          \<and> (\<forall>p. parent x = Some p \<and> live s p \<longrightarrow> getParent s n = Some p))
   \<and> (\<forall>x p. node_at s n = Some x \<and> parent x = None \<and> \<not> live s p \<longrightarrow>
          same_view s (setParent (Some n) (Some p) s))
   \<and> (same_view s t \<longrightarrow>
          getParent s n = getParent t n
          \<and> getLeft s n = getLeft t n \<and> hasLeft s n = hasLeft t n
          \<and> getRight s n = getRight t n \<and> hasRight s n = hasRight t n
          \<and> getValue s n = getValue t n
          \<and> fst (createLeaf v s) = fst (createLeaf v t)
          \<and> fst (fork v l r s) = fst (fork v l r t)
          \<and> fst (replaceLeft n l s) = fst (replaceLeft n l t)
          \<and> fst (replaceRight n r s) = fst (replaceRight n r t)
          \<and> fst (removeLeft n s) = fst (removeLeft n t)
          \<and> fst (removeRight n s) = fst (removeRight n t))
   \<and> (same_view s t \<and> well_formed s \<and> well_formed t \<longrightarrow>
          fst (replaceLeftWithLeaf n v s) = fst (replaceLeftWithLeaf n v t)
          \<and> fst (replaceRightWithLeaf n v s) = fst (replaceRightWithLeaf n v t)
          \<and> (\<forall>cs s'. run cs s = Some s' \<longrightarrow> (\<exists>t'. run cs t = Some t' \<and> same_view s' t')))"
proof (intro conjI impI allI)
  fix x assume "node_at s n = Some x"
  then show "getParent s n = None \<longleftrightarrow> parent x = None \<or> (\<exists>p. parent x = Some p \<and> \<not> live s p)"
    by (rule getParent_None_iff)
next
  fix x p assume "node_at s n = Some x" and "parent x = Some p \<and> live s p"
  then show "getParent s n = Some p" by (simp add: getParent_def lock_def)
next
  fix x p assume "node_at s n = Some x \<and> parent x = None \<and> \<not> live s p"
  then show "same_view s (setParent (Some n) (Some p) s)"
    using same_view_dangling by blast
next
  assume sv: "same_view s t"
  show "getParent s n = getParent t n" by (rule same_view_getParent [OF sv])
  show "getLeft s n = getLeft t n" by (rule same_view_getLeft [OF sv])
  then show "hasLeft s n = hasLeft t n" by (simp add: hasLeft_def)
  show "getRight s n = getRight t n" by (rule same_view_getRight [OF sv])
  then show "hasRight s n = hasRight t n" by (simp add: hasRight_def)
  show "getValue s n = getValue t n" by (rule same_view_getValue [OF sv])
  show "fst (createLeaf v s) = fst (createLeaf v t)"
    by (simp add: fst_createLeaf same_viewD(1) [OF sv])
  show "fst (fork v l r s) = fst (fork v l r t)"
    by (simp add: fst_fork same_viewD(1) [OF sv])
  show "fst (replaceLeft n l s) = fst (replaceLeft n l t)"
    by (simp add: fst_replaceLeft same_view_getLeft [OF sv])
  show "fst (replaceRight n r s) = fst (replaceRight n r t)"
    by (simp add: fst_replaceRight same_view_getRight [OF sv])
  show "fst (removeLeft n s) = fst (removeLeft n t)"
    by (simp add: removeLeft_def fst_replaceLeft same_view_getLeft [OF sv])
  show "fst (removeRight n s) = fst (removeRight n t)"
    by (simp add: removeRight_def fst_replaceRight same_view_getRight [OF sv])
next
  assume a: "same_view s t \<and> well_formed s \<and> well_formed t"
  then have sv: "same_view (snd (createLeaf v s)) (snd (createLeaf v t))"
    by (simp add: same_view_createLeaf)
  show "fst (replaceLeftWithLeaf n v s) = fst (replaceLeftWithLeaf n v t)"
    by (simp add: fst_replaceLeftWithLeaf same_view_getLeft [OF sv])
  show "fst (replaceRightWithLeaf n v s) = fst (replaceRightWithLeaf n v t)"
    by (simp add: fst_replaceRightWithLeaf same_view_getRight [OF sv])
next
  fix cs s' assume "same_view s t \<and> well_formed s \<and> well_formed t" and "run cs s = Some s'"
  then show "\<exists>t'. run cs t = Some t' \<and> same_view s' t'"
    using same_view_run by blast
qed

theorem absent_parent_indistinguishable_witness:
  "reachable orphaned \<and> reachable detached
   \<and> node_at orphaned 0 = Some \<lparr>val = 1, left = None, right = None, parent = Some 1\<rparr>
   \<and> \<not> live orphaned 1
   \<and> node_at detached 0 = Some \<lparr>val = 1, left = None, right = None, parent = None\<rparr>
   \<and> same_view orphaned detached \<and> well_formed orphaned \<and> well_formed detached
   \<and> getParent orphaned 0 = None \<and> getParent detached 0 = None
   \<and> (\<exists>t'. run [GetParent 0, ReplaceLeftWithLeaf 0 7] detached = Some t'
          \<and> same_view (exec (ReplaceLeftWithLeaf 0 7) (exec (GetParent 0) orphaned)) t')"
proof -
  have o: "node_at orphaned 0 = Some \<lparr>val = 1, left = None, right = None, parent = Some 1\<rparr>"
    "\<not> live orphaned 1"
    by (simp_all add: orphaned_eq node_at_def live_def)
  have d: "node_at detached 0 = Some \<lparr>val = 1, left = None, right = None, parent = None\<rparr>"
    by (simp add: detached_eq node_at_def)
  have sv: "same_view orphaned detached"
    by (rule same_viewI)
      (auto simp: orphaned_eq detached_eq node_at_def lock_def live_def split: if_splits)
  have wf: "well_formed orphaned" "well_formed detached"
    by (simp_all add: reachable_orphaned reachable_detached reachable_well_formed)
  have r: "run [GetParent 0, ReplaceLeftWithLeaf 0 7] orphaned
      = Some (exec (ReplaceLeftWithLeaf 0 7) (exec (GetParent 0) orphaned))"
    by (simp add: orphaned_eq holds_def getParent_def node_at_def lock_def live_def acquire_def)
  note t = absent_parent_indistinguishable [where s = orphaned and n = 0 and t = detached
      and v = 7 and l = None and r = None]
  note t2 = t [THEN conjunct1, rule_format, OF o(1), THEN conjunct1]
  note t4 = t [THEN conjunct2, THEN conjunct2, THEN conjunct1, rule_format, OF sv]
  note t5 = t [THEN conjunct2, THEN conjunct2, THEN conjunct2, rule_format]
  from t2 o(2) have "getParent orphaned 0 = None" by simp
  moreover from t4 have "getParent orphaned 0 = getParent detached 0" by simp
  moreover from t5 sv wf r
  have "\<exists>t'. run [GetParent 0, ReplaceLeftWithLeaf 0 7] detached = Some t'
          \<and> same_view (exec (ReplaceLeftWithLeaf 0 7) (exec (GetParent 0) orphaned)) t'"
    by blast
  ultimately show ?thesis
    using reachable_orphaned reachable_detached o d sv wf by simp
qed

section \<open>Replacing a child by itself\<close>

text \<open>
  C7. For a node \<open>n\<close> whose current left child is \<open>c\<close>, \<open>n.replaceLeft(c)\<close> returns
  \<open>c\<close> and leaves \<open>c\<close> in the left slot of \<open>n\<close>, but \<open>c\<close> has lost its
  back-reference: \<open>c.getParent()\<close> returns the absent value. The claim words this as
  \<open>c.hasParent()\<close> being false; \<^verbatim>\<open>hasParent\<close> cannot be instantiated, so it is proved
  of \<open>getParent\<close>.
\<close>

theorem replaceLeft_current_child:
  assumes "live s n" and "getLeft s n = Some c" and "live s c"
  shows "fst (replaceLeft n (Some c) s) = Some c
       \<and> getLeft (snd (replaceLeft n (Some c) s)) n = Some c
       \<and> live (snd (replaceLeft n (Some c) s)) c
       \<and> getParent (snd (replaceLeft n (Some c) s)) c = None"
  using assms
  by (auto simp: fst_replaceLeft getLeft_def getParent_def node_at_replaceLeft
      live_def lock_def split: option.splits)

theorem replaceLeft_current_child_witness:
  "live two_nodes 1 \<and> getLeft two_nodes 1 = Some 0 \<and> live two_nodes 0
   \<and> getParent two_nodes 0 = Some 1
   \<and> fst (replaceLeft 1 (Some 0) two_nodes) = Some 0
   \<and> getLeft (snd (replaceLeft 1 (Some 0) two_nodes)) 1 = Some 0
   \<and> getParent (snd (replaceLeft 1 (Some 0) two_nodes)) 0 = None"
proof -
  have h: "live two_nodes 1" "getLeft two_nodes 1 = Some 0" "live two_nodes 0"
    by (simp_all add: two_nodes_eq live_def node_at_def getLeft_def)
  have "getParent two_nodes 0 = Some 1"
    by (simp add: two_nodes_eq getParent_def lock_def live_def node_at_def)
  with replaceLeft_current_child [OF h] h show ?thesis by simp
qed

section \<open>Removing a child\<close>

text \<open>
  C8. \<open>removeLeft()\<close> is \<open>replaceLeft(absent)\<close> and \<open>removeRight()\<close> is
  \<open>replaceRight(absent)\<close>, with the same result and the same store afterwards: the
  child is returned (absent if there was none), the slot is empty afterwards and the
  \<open>getParent()\<close> of the detached child returns the absent value.
\<close>

theorem remove_is_replace_absent:
  "removeLeft n s = replaceLeft n None s
   \<and> removeRight n s = replaceRight n None s
   \<and> fst (removeLeft n s) = getLeft s n
   \<and> fst (removeRight n s) = getRight s n
   \<and> getLeft (snd (removeLeft n s)) n = None
   \<and> getRight (snd (removeRight n s)) n = None
   \<and> (\<forall>c. getLeft s n = Some c \<longrightarrow> getParent (snd (removeLeft n s)) c = None)
   \<and> (\<forall>c. getRight s n = Some c \<longrightarrow> getParent (snd (removeRight n s)) c = None)"
  by (auto simp: removeLeft_def removeRight_def fst_replaceLeft fst_replaceRight
      getLeft_replaceLeft getRight_replaceRight getParent_def node_at_replaceLeft
      node_at_replaceRight getLeft_def getRight_def live_def lock_def split: option.splits)

theorem remove_is_replace_absent_witness:
  "getLeft two_nodes 1 = Some 0 \<and> getParent two_nodes 0 = Some 1
   \<and> removeLeft 1 two_nodes = replaceLeft 1 None two_nodes
   \<and> fst (removeLeft 1 two_nodes) = Some 0
   \<and> getLeft (snd (removeLeft 1 two_nodes)) 1 = None
   \<and> getParent (snd (removeLeft 1 two_nodes)) 0 = None"
proof -
  have g: "getLeft two_nodes 1 = Some 0" "getParent two_nodes 0 = Some 1"
    by (simp_all add: two_nodes_eq getLeft_def getParent_def lock_def live_def node_at_def)
  from remove_is_replace_absent [of 1 two_nodes]
  have "removeLeft 1 two_nodes = replaceLeft 1 None two_nodes"
    and "fst (removeLeft 1 two_nodes) = getLeft two_nodes 1"
    and "getLeft (snd (removeLeft 1 two_nodes)) 1 = None"
    and "getLeft two_nodes 1 = Some 0 \<longrightarrow> getParent (snd (removeLeft 1 two_nodes)) 0 = None"
    by blast+
  with g show ?thesis by simp
qed

section \<open>Creating a leaf\<close>

text \<open>
  C9. \<open>createLeaf(v)\<close> returns a handle to a node whose four fields are all set by
  the allocation: \<open>getValue() == v\<close>, no left child, no right child, no parent
  (\<open>getParent()\<close> returns the absent value). No other node changes. In a reachable store the node is fresh: its identity was neither alive nor
  in the caller's hands before, no slot holds it and no back-reference resolves to it.
  The object is created through \<^verbatim>\<open>TSuccessorNode\<close>, which adds nothing to \<^verbatim>\<open>TNode\<close>,
  so the handle is an ordinary node handle. The claim words ``no parent'' as
  \<open>hasParent() == false\<close>; \<^verbatim>\<open>hasParent\<close> cannot be instantiated on any node, so what
  is proved of the code is the empty \<open>parent\<close> field and the result of \<open>getParent\<close>.
\<close>

theorem createLeaf_fresh_leaf:
  "(case createLeaf v s of (a, s') \<Rightarrow>
      node_at s' a = Some \<lparr>val = v, left = None, right = None, parent = None\<rparr>
      \<and> getValue s' a = Some v \<and> \<not> hasLeft s' a \<and> \<not> hasRight s' a \<and> getParent s' a = None
      \<and> holds s' a
      \<and> (\<forall>b. b \<noteq> a \<longrightarrow> node_at s' b = node_at s b)
      \<and> (reachable s \<longrightarrow> \<not> live s a \<and> \<not> holds s a
            \<and> (\<forall>b. \<not> has_child s' b a \<and> getParent s' b \<noteq> Some a)))"
proof -
  have "\<not> live s (nxt s) \<and> \<not> holds s (nxt s)
      \<and> (\<forall>b. \<not> has_child (snd (createLeaf v s)) b (nxt s)
             \<and> getParent (snd (createLeaf v s)) b \<noteq> Some (nxt s))" if "reachable s"
  proof -
    from that have wf: "well_formed s" by (rule reachable_well_formed)
    have "getParent (snd (createLeaf v s)) b \<noteq> Some (nxt s)" for b
      using well_formedD(4) [OF wf, of b _ "nxt s"]
      by (auto simp: getParent_def node_at_createLeaf lock_def split: option.splits if_splits)
    with wf show ?thesis
      using well_formedD(1,5) [OF wf, of "nxt s"] has_child_of_fresh [OF wf]
      by (auto simp: has_child_createLeaf)
  qed
  then show ?thesis
    by (simp add: split_beta fst_createLeaf node_at_createLeaf getValue_def hasLeft_def
        hasRight_def getParent_def getLeft_def getRight_def holds_createLeaf lock_def)
qed

theorem createLeaf_fresh_leaf_witness:
  "reachable two_nodes \<and> fst (createLeaf 2 two_nodes) = 2 \<and> \<not> live two_nodes 2
   \<and> getValue (snd (createLeaf 2 two_nodes)) 2 = Some 2
   \<and> \<not> hasLeft (snd (createLeaf 2 two_nodes)) 2
   \<and> \<not> hasRight (snd (createLeaf 2 two_nodes)) 2
   \<and> getParent (snd (createLeaf 2 two_nodes)) 2 = None"
proof -
  have f: "fst (createLeaf 2 two_nodes) = 2" by (simp add: fst_createLeaf two_nodes_eq)
  from createLeaf_fresh_leaf [of 2 two_nodes] reachable_two_nodes f show ?thesis
    by (simp add: split_beta)
qed

section \<open>Deallocation\<close>



end
